theory Spec2Isabelle
  imports Main "HOL-Library.Word"
begin

unbundle bit_operations_syntax

section \<open>The reconciler: VNodes, components and unmount\<close>

subsection \<open>Data model (packages/misstime/src/utils/types.ts)\<close>

text \<open>
  The \<open>type\<close> and \<open>childrenType\<close> fields of a VNode are bit sets; JavaScript's
  \<open>&\<close> works on 32-bit integers. The constants are those of the two
  \<open>const enum\<close>s \<open>Types\<close> and \<open>ChildrenTypes\<close>.
\<close>

definition Types_Text :: "32 word" where "Types_Text = 1"
definition Types_CommonElement :: "32 word" where "Types_CommonElement = push_bit 1 1"
definition Types_ComponentClass :: "32 word" where "Types_ComponentClass = push_bit 2 1"
definition Types_ComponentFunction :: "32 word" where "Types_ComponentFunction = push_bit 3 1"
definition Types_HtmlComment :: "32 word" where "Types_HtmlComment = push_bit 4 1"
definition Types_InputElement :: "32 word" where "Types_InputElement = push_bit 5 1"
definition Types_SelectElement :: "32 word" where "Types_SelectElement = push_bit 6 1"
definition Types_TextareaElement :: "32 word" where "Types_TextareaElement = push_bit 7 1"
definition Types_SvgElement :: "32 word" where "Types_SvgElement = push_bit 8 1"
definition Types_UnescapeText :: "32 word" where "Types_UnescapeText = push_bit 9 1"
definition Types_Void :: "32 word" where "Types_Void = push_bit 10 1"
definition Types_Fragment :: "32 word" where "Types_Fragment = push_bit 11 1"

definition Types_FormElement :: "32 word" where
  "Types_FormElement = Types_InputElement OR Types_SelectElement OR Types_TextareaElement"

definition Types_Element :: "32 word" where
  "Types_Element = Types_CommonElement OR Types_FormElement OR Types_SvgElement"

definition ChildrenTypes_UnknownChildren :: "32 word" where "ChildrenTypes_UnknownChildren = 0"
definition ChildrenTypes_HasInvalidChildren :: "32 word" where "ChildrenTypes_HasInvalidChildren = 1"
definition ChildrenTypes_HasVNodeChildren :: "32 word" where "ChildrenTypes_HasVNodeChildren = push_bit 1 1"
definition ChildrenTypes_HasNonKeyedChildren :: "32 word" where "ChildrenTypes_HasNonKeyedChildren = push_bit 2 1"
definition ChildrenTypes_HasKeyedChildren :: "32 word" where "ChildrenTypes_HasKeyedChildren = push_bit 3 1"
definition ChildrenTypes_HasTextChildren :: "32 word" where "ChildrenTypes_HasTextChildren = push_bit 4 1"

definition ChildrenTypes_MultipleChildren :: "32 word" where
  "ChildrenTypes_MultipleChildren = ChildrenTypes_HasNonKeyedChildren OR ChildrenTypes_HasKeyedChildren"

text \<open>
  Values held in prop bags. Functions, DOM nodes and other objects are opaque and are
  identified by a handle.
\<close>

datatype jsval =
    JUndefined
  | JNull
  | JBool bool
  | JNum int
  | JStr string
  | JObj nat

type_synonym dom = nat
type_synonym props = "(string \<times> jsval) list"

text \<open>
  A VNode with the fields \<open>unmount\<close> reads. The \<open>children\<close> field has the TypeScript
  type \<open>NormalizedChildren | ComponentClass\<close>: nothing, a string or number, one VNode, an
  array of VNodes, or (for a class-component VNode) the component instance.

  A component instance is an object with identity. Its identity is \<open>cid\<close>. The fields
  that \<open>$unmount\<close> only reads (\<open>$lastInput\<close>, and whether the user defined the
  \<open>beforeUnmount\<close> and \<open>unmounted\<close> hooks) are held where the instance is reached
  from; the fields that methods write are held in the store of the world, below.
\<close>

datatype vnode =
  VNode (dom: "dom option") (vtype: "32 word") (childrenType: "32 word")
        (props: "props option") (children: vchildren) (ref: "nat option")
and vchildren =
    ChildNone
  | ChildText string
  | ChildNumber int
  | ChildVNode vnode
  | ChildVNodes "vnode list"
  | ChildComponent component
and component =
  Component (cid: nat) (lastInput: "vnode option") (hasBeforeUnmount: bool) (hasUnmounted: bool)

text \<open>The mutable fields of a component instance (class \<open>Component\<close>, component.ts).\<close>

record cinstance =
  iprops :: props
  inited :: bool
  rendered :: bool
  mounted :: bool
  unmounted :: bool

text \<open>
  Calls that leave the source files at hand are recorded in a trace, in the order the
  code makes them: the helpers \<open>unmountRef\<close>, \<open>unmountDelegatedEvent\<close>,
  \<open>removeVNodeDom\<close>, \<open>mountProps\<close>, \<open>setProps\<close>, \<open>componentInited\<close>, \<open>forceUpdate\<close>, the
  inherited \<open>off\<close>, the user's lifecycle hooks and \<open>init\<close>, \<open>console.error\<close>, and the
  one direct DOM write of unmount.ts, \<open>dom.textContent = ''\<close>. The calls that \<open>$unmount\<close>
  makes on the instance (\<open>beforeUnmount\<close>, \<open>off\<close>, \<open>unmounted\<close>) are recorded with the value
  of \<open>$unmounted\<close> that the callee finds, so that the trace tells on which side of the
  assignment \<open>this.$unmounted = true\<close> a call is made.
\<close>

datatype event =
    UnmountRef "nat option"
  | UnmountDelegatedEvent string "dom option"
  | RemoveVNodeDom vnode dom
  | SetTextContent dom string
  | HookBeforeUnmount nat bool
  | HookUnmounted nat bool
  | HookMounted nat
  | EventOff nat bool
  | CallForceUpdate nat "nat option"
  | CallSetProps nat props
  | CallMountProps nat props
  | CallInit nat "props option"
  | CallComponentInited nat "props option"
  | ConsoleError string jsval

record world =
  trace :: "event list"
  instances :: "nat \<Rightarrow> cinstance"

datatype jserror = TypeError

definition emit :: "event \<Rightarrow> world \<Rightarrow> world" where
  "emit e w = w\<lparr>trace := trace w @ [e]\<rparr>"

subsection \<open>unmount.ts\<close>

text \<open>JavaScript truthiness of the \<open>children\<close> field.\<close>

fun truthy_children :: "vchildren \<Rightarrow> bool" where
  "truthy_children ChildNone = False"
| "truthy_children (ChildText s) = (s \<noteq> [])"
| "truthy_children (ChildNumber n) = (n \<noteq> 0)"
| "truthy_children (ChildVNode v) = True"
| "truthy_children (ChildVNodes vs) = True"
| "truthy_children (ChildComponent c) = True"

text \<open>
  The loop \<open>for (const prop in props) if (delegatedEvents[prop]) unmountDelegatedEvent(prop, dom)\<close>.
  The table \<open>delegatedEvents\<close> belongs to events/delegation, which is not among the source files:
  it is the parameter \<open>de\<close>.
\<close>

fun unmountProps :: "(string \<Rightarrow> bool) \<Rightarrow> props \<Rightarrow> dom option \<Rightarrow> world \<Rightarrow> world" where
  "unmountProps de [] d w = w"
| "unmountProps de ((prop, v) # ps) d w =
     unmountProps de ps d (if de prop then emit (UnmountDelegatedEvent prop d) w else w)"

text \<open>
  \<open>unmount\<close>, \<open>unmountAllChildren\<close> and the method \<open>$unmount\<close> of component.ts, which
  call each other. The casts \<open>children as VNode[]\<close>, \<open>children as VNode\<close> and
  \<open>children as ComponentClass\<close> are not checked at run time; where the value has another
  shape the model does what the JavaScript does: reading a property of \<open>null\<close> or calling
  a missing method is a TypeError, and reading \<open>type\<close>, \<open>children\<close> or \<open>length\<close> of a
  string, a number or another object gives \<open>undefined\<close>, so that nothing is done.
\<close>

fun unmount :: "(string \<Rightarrow> bool) \<Rightarrow> vnode \<Rightarrow> world \<Rightarrow> jserror + world"
and unmountAllChildren :: "(string \<Rightarrow> bool) \<Rightarrow> vnode list \<Rightarrow> world \<Rightarrow> jserror + world"
and c_unmount :: "(string \<Rightarrow> bool) \<Rightarrow> component \<Rightarrow> world \<Rightarrow> jserror + world"
where
  "unmount de (VNode d ty cty ps ch r) w =
     (if ty AND Types_Element \<noteq> 0 then
        (let w1 = emit (UnmountRef r) w;
             w2 = (case ps of None \<Rightarrow> w1 | Some pl \<Rightarrow> unmountProps de pl d w1)
         in if cty AND ChildrenTypes_MultipleChildren \<noteq> 0 then
              (case ch of
                 ChildVNodes vs \<Rightarrow> unmountAllChildren de vs w2
               | ChildNone \<Rightarrow> Inl TypeError
               | _ \<Rightarrow> Inr w2)
            else if cty = ChildrenTypes_HasVNodeChildren then
              (case ch of
                 ChildVNode c \<Rightarrow> unmount de c w2
               | ChildNone \<Rightarrow> Inl TypeError
               | _ \<Rightarrow> Inr w2)
            else Inr w2)
      else if truthy_children ch then
        (if ty AND Types_ComponentClass \<noteq> 0 then
           (case ch of
              ChildComponent c \<Rightarrow>
                (case c_unmount de c w of
                   Inl e \<Rightarrow> Inl e
                 | Inr w' \<Rightarrow> Inr (emit (UnmountRef r) w'))
            | _ \<Rightarrow> Inl TypeError)
         else Inr w)
      else Inr w)"
| "unmountAllChildren de [] w = Inr w"
| "unmountAllChildren de (v # vs) w =
     (case unmount de v w of
        Inl e \<Rightarrow> Inl e
      | Inr w' \<Rightarrow> unmountAllChildren de vs w')"
| "c_unmount de (Component i li hb hu) w =
     (let w1 = (if hb then emit (HookBeforeUnmount i (unmounted (instances w i))) w else w)
      in case li of
           None \<Rightarrow> Inl TypeError
         | Some v \<Rightarrow>
             (case unmount de v w1 of
                Inl e \<Rightarrow> Inl e
              | Inr w2 \<Rightarrow>
                  (let w3 = w2\<lparr>instances := (instances w2)(i := (instances w2 i)\<lparr>unmounted := True\<rparr>)\<rparr>;
                       w4 = emit (EventOff i (unmounted (instances w3 i))) w3
                   in Inr (if hu then emit (HookUnmounted i (unmounted (instances w4 i))) w4
                           else w4))))"

definition remove :: "(string \<Rightarrow> bool) \<Rightarrow> vnode \<Rightarrow> dom \<Rightarrow> world \<Rightarrow> jserror + world" where
  "remove de vNode parentDom w =
     (case unmount de vNode w of
        Inl e \<Rightarrow> Inl e
      | Inr w' \<Rightarrow> Inr (emit (RemoveVNodeDom vNode parentDom) w'))"

definition clearDom :: "dom \<Rightarrow> world \<Rightarrow> world" where
  "clearDom d w = emit (SetTextContent d []) w"

definition removeAllChildren ::
  "(string \<Rightarrow> bool) \<Rightarrow> vnode list \<Rightarrow> dom \<Rightarrow> vnode \<Rightarrow> world \<Rightarrow> jserror + world" where
  "removeAllChildren de cs d vNode w =
     (case unmountAllChildren de cs w of
        Inl e \<Rightarrow> Inl e
      | Inr w' \<Rightarrow>
          Inr (if vtype vNode AND Types_Fragment \<noteq> 0
               then emit (RemoveVNodeDom vNode d) w'
               else clearDom d w'))"

subsection \<open>component.ts\<close>

text \<open>
  \<open>process.env.NODE_ENV\<close> is a string fixed at build time; the code compares it with
  string literals.
\<close>

type_synonym node_env = string

text \<open>
  The constructor. \<open>init\<close> is \<open>None\<close> when the class defines no \<open>init\<close> method;
  otherwise it tells what the call \<open>this.init(props)\<close> returns: a falsy value, a truthy
  value without a truthy \<open>then\<close>, or a promise. \<open>mountProps\<close> returns the function
  \<open>triggerReceiveEvents\<close>, a closure over the props it was given: the model keeps those
  props. The constructor returns the handlers it has registered on the promise, if any:
  they run when the promise settles, after the constructor has returned.
\<close>

datatype initRet = RetFalsy | RetPlain | RetPromise

datatype settlement = Fulfilled | Rejected jsval

record pending =
  pcid :: nat
  triggerReceiveEvents :: "props option"

definition componentInited :: "nat \<Rightarrow> props option \<Rightarrow> world \<Rightarrow> world" where
  "componentInited i trig w = emit (CallComponentInited i trig) w"

definition constructor ::
  "nat \<Rightarrow> props \<Rightarrow> initRet option \<Rightarrow> props option \<Rightarrow> world \<Rightarrow> world \<times> pending option" where
  "constructor i defaults init ps w =
     (let w1 = w\<lparr>instances := (instances w)(i := (instances w i)\<lparr>iprops := defaults\<rparr>)\<rparr>;
          w2 = (case ps of None \<Rightarrow> w1 | Some p \<Rightarrow> emit (CallMountProps i p) w1);
          trig = ps
      in case init of
           None \<Rightarrow> (componentInited i trig w2, None)
         | Some ret \<Rightarrow>
             (let w3 = emit (CallInit i ps) w2
              in if ret = RetPromise
                 then (w3, Some \<lparr>pcid = i, triggerReceiveEvents = trig\<rparr>)
                 else (componentInited i trig w3, None)))"

text \<open>The two handlers passed to \<open>then\<close>, run with the outcome of the promise.\<close>

definition settle :: "node_env \<Rightarrow> pending \<Rightarrow> settlement \<Rightarrow> world \<Rightarrow> world" where
  "settle env pd outcome w =
     (case outcome of
        Fulfilled \<Rightarrow> componentInited (pcid pd) (triggerReceiveEvents pd) w
      | Rejected err \<Rightarrow>
          (let w1 = (if env \<noteq> ''production''
                     then emit (ConsoleError ''Unhandled promise rejection in init: '' err) w
                     else w)
           in componentInited (pcid pd) (triggerReceiveEvents pd) w1))"

text \<open>
  \<open>set\<close>. The call is either \<open>set(key, value, options?)\<close> with a string key or
  \<open>set(data, options?)\<close> with an object; \<open>options.silent\<close> that is missing is falsy.
  Two helpers are not among the source files and are parameters: \<open>set\<close> of
  utils/helpers, which writes one entry of a prop bag (\<open>setH\<close>), and \<open>setProps\<close> of
  utils/component (\<open>setProps\<close>).
\<close>

record setOptions =
  silent :: bool

datatype setArgs =
    SetKey string jsval "setOptions option"
  | SetData props "setOptions option"

definition set_c ::
  "(props \<Rightarrow> string \<Rightarrow> jsval \<Rightarrow> props) \<Rightarrow> (nat \<Rightarrow> props \<Rightarrow> world \<Rightarrow> world) \<Rightarrow>
   nat \<Rightarrow> setArgs \<Rightarrow> world \<Rightarrow> world" where
  "set_c setH setProps i args w =
     (let (key, options) =
            (case args of SetKey k v opts \<Rightarrow> ([(k, v)], opts) | SetData d opts \<Rightarrow> (d, opts))
      in if options \<noteq> None \<and> silent (the options)
         then w\<lparr>instances := (instances w)
                 (i := (instances w i)
                    \<lparr>iprops := foldl (\<lambda>p (propName, v). setH p propName v) (iprops (instances w i)) key\<rparr>)\<rparr>
         else setProps i key w)"

definition forceUpdate :: "nat \<Rightarrow> nat option \<Rightarrow> world \<Rightarrow> world" where
  "forceUpdate i callback w =
     (if unmounted (instances w i) then w else emit (CallForceUpdate i callback) w)"

definition c_mount :: "nat \<Rightarrow> bool \<Rightarrow> world \<Rightarrow> world" where
  "c_mount i hasMounted w =
     (let w1 = w\<lparr>instances := (instances w)(i := (instances w i)\<lparr>mounted := True\<rparr>)\<rparr>
      in if hasMounted then emit (HookMounted i) w1 else w1)"

subsection \<open>Notions used to state the properties of unmount\<close>

text \<open>Events that detach DOM nodes: a call of \<open>removeVNodeDom\<close>, and clearing \<open>textContent\<close>.\<close>

fun detaches :: "event \<Rightarrow> bool" where
  "detaches (RemoveVNodeDom v d) = True"
| "detaches (SetTextContent d s) = True"
| "detaches _ = False"

definition sameDom :: "world \<Rightarrow> world \<Rightarrow> bool" where
  "sameDom w w' = (filter detaches (trace w') = filter detaches (trace w))"

text \<open>
  The VNodes of a tree: the node, the VNodes among its children whatever its flags say, and
  the rendered subtree (\<open>$lastInput\<close>) of a component instance.
\<close>

fun subnodes :: "vnode \<Rightarrow> vnode list"
and subnodes_list :: "vnode list \<Rightarrow> vnode list"
and subnodes_component :: "component \<Rightarrow> vnode list"
where
  "subnodes (VNode d ty cty ps ch r) =
     VNode d ty cty ps ch r #
       (case ch of
          ChildVNode c \<Rightarrow> subnodes c
        | ChildVNodes vs \<Rightarrow> subnodes_list vs
        | ChildComponent c \<Rightarrow> subnodes_component c
        | _ \<Rightarrow> [])"
| "subnodes_list [] = []"
| "subnodes_list (v # vs) = subnodes v @ subnodes_list vs"
| "subnodes_component (Component i li hb hu) = (case li of None \<Rightarrow> [] | Some v \<Rightarrow> subnodes v)"

text \<open>
  Trees made of elements whose \<open>childrenType\<close> tells the shape of their children, of
  class components that hold their instance and a rendered subtree, and of nodes without
  child VNodes (text, comments). A fragment or a function component that holds child
  VNodes is not of this kind.
\<close>

fun shaped :: "vnode \<Rightarrow> bool"
and shaped_list :: "vnode list \<Rightarrow> bool"
and shaped_component :: "component \<Rightarrow> bool"
where
  "shaped (VNode d ty cty ps ch r) =
     (if ty AND Types_Element \<noteq> 0 then
        (case ch of
           ChildVNodes vs \<Rightarrow> cty AND ChildrenTypes_MultipleChildren \<noteq> 0 \<and> shaped_list vs
         | ChildVNode c \<Rightarrow>
             cty AND ChildrenTypes_MultipleChildren = 0 \<and> cty = ChildrenTypes_HasVNodeChildren \<and>
             shaped c
         | ChildComponent c \<Rightarrow> False
         | ChildNone \<Rightarrow>
             cty AND ChildrenTypes_MultipleChildren = 0 \<and> cty \<noteq> ChildrenTypes_HasVNodeChildren
         | _ \<Rightarrow> True)
      else
        (case ch of
           ChildVNodes vs \<Rightarrow> False
         | ChildVNode c \<Rightarrow> False
         | ChildComponent c \<Rightarrow> ty AND Types_ComponentClass \<noteq> 0 \<and> shaped_component c
         | ChildNone \<Rightarrow> True
         | _ \<Rightarrow> ty AND Types_ComponentClass = 0))"
| "shaped_list [] = True"
| "shaped_list (v # vs) = (shaped v \<and> shaped_list vs)"
| "shaped_component (Component i li hb hu) = (case li of None \<Rightarrow> False | Some v \<Rightarrow> shaped v)"

text \<open>
  The calls of \<open>unmountDelegatedEvent\<close> that the delegated props of an element ask for.
\<close>

definition delegatedCalls :: "(string \<Rightarrow> bool) \<Rightarrow> vnode \<Rightarrow> event list" where
  "delegatedCalls de v =
     (if vtype v AND Types_Element \<noteq> 0
      then (case props v of
              None \<Rightarrow> []
            | Some pl \<Rightarrow> map (\<lambda>p. UnmountDelegatedEvent p (dom v)) (filter de (map fst pl)))
      else [])"

text \<open>Auxiliary names for the three stages of \<open>unmount\<close> on an element and of \<open>$unmount\<close>.\<close>

definition elemProps ::
  "(string \<Rightarrow> bool) \<Rightarrow> props option \<Rightarrow> dom option \<Rightarrow> nat option \<Rightarrow> world \<Rightarrow> world" where
  "elemProps de ps d r w =
     (case ps of
        None \<Rightarrow> emit (UnmountRef r) w
      | Some pl \<Rightarrow> unmountProps de pl d (emit (UnmountRef r) w))"

definition c_pre :: "nat \<Rightarrow> bool \<Rightarrow> world \<Rightarrow> world" where
  "c_pre i hb w = (if hb then emit (HookBeforeUnmount i (unmounted (instances w i))) w else w)"

definition c_post :: "nat \<Rightarrow> bool \<Rightarrow> world \<Rightarrow> world" where
  "c_post i hu w2 =
     (let w3 = w2\<lparr>instances := (instances w2)(i := (instances w2 i)\<lparr>unmounted := True\<rparr>)\<rparr>;
          w4 = emit (EventOff i (unmounted (instances w3 i))) w3
      in if hu then emit (HookUnmounted i (unmounted (instances w4 i))) w4 else w4)"

definition isConsoleError :: "event \<Rightarrow> bool" where
  "isConsoleError e = (case e of ConsoleError m x \<Rightarrow> True | _ \<Rightarrow> False)"

subsection \<open>Example inputs\<close>

definition w0 :: world where
  "w0 = \<lparr>trace = [],
          instances = (\<lambda>i. \<lparr>iprops = [], inited = False, rendered = False,
                              mounted = False, unmounted = False\<rparr>)\<rparr>"

definition ex_text :: vnode where
  "ex_text = VNode (Some 3) Types_Text ChildrenTypes_UnknownChildren None (ChildText ''hi'') None"

definition ex_instance :: component where
  "ex_instance = Component 7 (Some ex_text) True True"

definition ex_comp :: vnode where
  "ex_comp = VNode (Some 3) Types_ComponentClass ChildrenTypes_UnknownChildren None
               (ChildComponent ex_instance) (Some 5)"

definition ex_div :: vnode where
  "ex_div = VNode (Some 1) Types_CommonElement ChildrenTypes_HasVNodeChildren
              (Some [(''ev-click'', JObj 11), (''id'', JStr ''a'')]) (ChildVNode ex_comp) None"

definition ex_button :: vnode where
  "ex_button = VNode (Some 2) Types_CommonElement ChildrenTypes_HasTextChildren
                 (Some [(''ev-click'', JObj 12)]) (ChildText ''ok'') None"

definition ex_fragment :: vnode where
  "ex_fragment = VNode (Some 2) Types_Fragment ChildrenTypes_HasNonKeyedChildren None
                   (ChildVNodes [ex_button]) None"

definition ex_de :: "string \<Rightarrow> bool" where
  "ex_de p = (p = ''ev-click'')"

text \<open>Stand-ins for the two helpers of \<open>set\<close> in the examples: a keyed write, and a logged call.\<close>

definition ex_setH :: "props \<Rightarrow> string \<Rightarrow> jsval \<Rightarrow> props" where
  "ex_setH p k v = (if k \<in> fst ` set p then map (\<lambda>(k', v'). if k' = k then (k', v) else (k', v')) p else p @ [(k, v)])"

definition ex_setProps :: "nat \<Rightarrow> props \<Rightarrow> world \<Rightarrow> world" where
  "ex_setProps i d w = emit (CallSetProps i d) w"

definition ex_pending :: pending where
  "ex_pending = \<lparr>pcid = 7, triggerReceiveEvents = Some [(''a'', JNum 1)]\<rparr>"

subsection \<open>Relations between worlds used in the proofs\<close>

definition grows :: "world \<Rightarrow> world \<Rightarrow> bool" where
  "grows w w' = (set (trace w) \<subseteq> set (trace w'))"

definition covers :: "(string \<Rightarrow> bool) \<Rightarrow> vnode list \<Rightarrow> world \<Rightarrow> bool" where
  "covers de ns w = (\<forall>e\<in>set ns. set (delegatedCalls de e) \<subseteq> set (trace w))"

definition keepsUnmounted :: "nat \<Rightarrow> world \<Rightarrow> world \<Rightarrow> bool" where
  "keepsUnmounted i w w' = (unmounted (instances w i) \<longrightarrow> unmounted (instances w' i))"

section \<open>The template parser (packages/vdt/src/compiler/parser.ts)\<close>

subsection \<open>AST\<close>

text \<open>
  Modelled from the spec: the declarations of the AST node types, of the enums
  \<open>ASTTypes\<close> and \<open>Directives\<close> and of the helper \<open>isElementNode\<close> belong to utils/types
  and utils/helpers of the vdt package, which are not among the source files. A
  constructor carries the fields of the object literal that parser.ts builds for the node;
  an element owns its tag, attributes, directive mapping, children, keyed flag and
  location, and the directive names are those of the template language.

  In the directive mapping the entries \<open>v-if\<close>, \<open>v-else-if\<close> and \<open>v-else\<close> hold directive
  nodes; every other directive holds its value. The \<open>next\<close> field of a directive node is
  assigned after the node has been built and while the variable \<open>directiveIf\<close> aliases
  it, so a directive node carries an address and its \<open>next\<close> field lives in the store
  \<open>nexts\<close> of the parser state: an address without an entry is a \<open>next\<close> that is still
  \<open>null\<close>, and the most recent entry for an address is its value.
\<close>

record SourceLocation =
  loc_line :: nat
  loc_column :: nat

datatype ASTTypes =
    JS | JSHoist | JSXText | JSXUnescapeText | JSXCommonElement | JSXComponent | JSXComment
  | JSXVdt | JSXBlock | JSXExpression | JSXAttribute | JSXString | JSXStrings | JSXNone
  | JSXDirectiveIf

datatype ASTNode =
    ASTJS "string list" int SourceLocation
  | ASTHoist string SourceLocation
  | ASTString string SourceLocation
  | ASTComment string SourceLocation
  | ASTText string SourceLocation
  | ASTExpression ASTTypes "ASTNode list" SourceLocation
  | ASTNone SourceLocation
  | ASTStrings "ASTNode list" SourceLocation
  | ASTAttribute string ASTNode SourceLocation
  | ASTElement ASTTypes string "ASTNode list" Directives "ASTNode list" bool SourceLocation
and Directives =
  Directives (dIf: "ASTDirectiveIf option") (dElseIf: "ASTDirectiveIf option")
             (dElse: "ASTDirectiveIf option") (dCommon: "(string \<times> ASTNode) list")
and ASTDirectiveIf =
  ASTDirectiveIf (dname: string) (dvalue: ASTNode) (daddr: nat) (dloc: SourceLocation)

fun node_type :: "ASTNode \<Rightarrow> ASTTypes" where
  "node_type (ASTJS v s l) = JS"
| "node_type (ASTHoist v l) = JSHoist"
| "node_type (ASTString v l) = JSXString"
| "node_type (ASTComment v l) = JSXComment"
| "node_type (ASTText v l) = JSXText"
| "node_type (ASTExpression t v l) = t"
| "node_type (ASTNone l) = JSXNone"
| "node_type (ASTStrings v l) = JSXStrings"
| "node_type (ASTAttribute n v l) = JSXAttribute"
| "node_type (ASTElement t tg as ds cs k l) = t"

fun node_loc :: "ASTNode \<Rightarrow> SourceLocation" where
  "node_loc (ASTJS v s l) = l"
| "node_loc (ASTHoist v l) = l"
| "node_loc (ASTString v l) = l"
| "node_loc (ASTComment v l) = l"
| "node_loc (ASTText v l) = l"
| "node_loc (ASTExpression t v l) = l"
| "node_loc (ASTNone l) = l"
| "node_loc (ASTStrings v l) = l"
| "node_loc (ASTAttribute n v l) = l"
| "node_loc (ASTElement t tg as ds cs k l) = l"

fun isElementNode :: "ASTNode \<Rightarrow> bool" where
  "isElementNode (ASTElement t tg as ds cs k l) = True"
| "isElementNode _ = False"

fun directives :: "ASTNode \<Rightarrow> Directives" where
  "directives (ASTElement t tg as ds cs k l) = ds"
| "directives _ = Directives None None None []"

definition Directives_If :: string where "Directives_If = ''v-if''"
definition Directives_ElseIf :: string where "Directives_ElseIf = ''v-else-if''"
definition Directives_Else :: string where "Directives_Else = ''v-else''"
definition Directives_Raw :: string where "Directives_Raw = ''v-raw''"

datatype perror =
    ParseError string SourceLocation
  | NullDereference

datatype 'a result = is_Ok: Ok (the_Ok: 'a) | Err perror | OutOfFuel

record pstate =
  index :: nat
  line :: nat
  column :: nat
  fresh :: nat
  nexts :: "(nat \<times> ASTNode) list"

text \<open>
  What a parser is given, and what it imports. The source is a string of 8-bit
  characters; \<open>options.delimiters\<close> and \<open>process.env.NODE_ENV\<close> are fields. The helpers
  and tables that parser.ts imports from utils/helpers (\<open>trimRight\<close>, the character
  classes, \<open>selfClosingTags\<close>, \<open>textTags\<close>, \<open>directivesMap\<close>) and from utils/validate are
  not among the source files: they are fields too, and the properties below hold for any
  choice of them. A validator returns the error it throws, if any. \<open>throwError\<close> of
  utils/helpers ends the parse with the message and the location it is given: the result
  \<open>Err (ParseError msg loc)\<close>. A fuelled loop that runs out of fuel gives \<open>OutOfFuel\<close>.
\<close>

record parser =
  source :: string
  delimiters :: "string \<times> string"
  NODE_ENV :: string
  trimRight :: "string \<Rightarrow> string"
  isWhiteSpace :: "nat \<Rightarrow> bool"
  isWhiteSpaceExceptLinebreak :: "nat \<Rightarrow> bool"
  isJSIdentifierPart :: "nat \<Rightarrow> bool"
  isJSXIdentifierPart :: "nat \<Rightarrow> bool"
  selfClosingTags :: "string \<Rightarrow> bool"
  textTags :: "string \<Rightarrow> bool"
  directivesMap :: "string \<Rightarrow> bool"
  validateDirectiveValue ::
    "string \<Rightarrow> ASTTypes \<Rightarrow> string \<Rightarrow> ASTTypes \<Rightarrow> string \<Rightarrow> SourceLocation \<Rightarrow> perror option"
  validateAttributeForBlock ::
    "string \<Rightarrow> string \<Rightarrow> ASTNode \<Rightarrow> SourceLocation \<Rightarrow> string \<Rightarrow> perror option"
  validateModel :: "string \<Rightarrow> ASTTypes \<Rightarrow> ASTNode list \<Rightarrow> string \<Rightarrow> perror option"

subsection \<open>Cursor\<close>

definition getLocation :: "pstate \<Rightarrow> SourceLocation" where
  "getLocation st = \<lparr>loc_line = line st, loc_column = column st\<rparr>"

definition getValue :: "parser \<Rightarrow> nat \<Rightarrow> pstate \<Rightarrow> string" where
  "getValue p start st = take (index st - start) (drop start (source p))"

definition charAt :: "parser \<Rightarrow> int \<Rightarrow> char option" where
  "charAt p i = (if 0 \<le> i \<and> i < int (length (source p)) then Some (source p ! nat i) else None)"

definition charCodeAt :: "parser \<Rightarrow> int \<Rightarrow> nat option" where
  "charCodeAt p i = map_option of_char (charAt p i)"

definition pchar :: "parser \<Rightarrow> pstate \<Rightarrow> char option" where
  "pchar p st = charAt p (int (index st))"

definition charCode :: "parser \<Rightarrow> pstate \<Rightarrow> nat option" where
  "charCode p st = charCodeAt p (int (index st))"

definition onCode :: "(nat \<Rightarrow> bool) \<Rightarrow> nat option \<Rightarrow> bool" where
  "onCode f c = (case c of None \<Rightarrow> False | Some n \<Rightarrow> f n)"

definition isExpect :: "parser \<Rightarrow> string \<Rightarrow> nat \<Rightarrow> bool" where
  "isExpect p str i = (take (length str) (drop i (source p)) = str)"

definition isJSImport :: "parser \<Rightarrow> pstate \<Rightarrow> bool" where
  "isJSImport p st = isExpect p ''import '' (index st)"

definition updateIndex :: "nat \<Rightarrow> pstate \<Rightarrow> pstate" where
  "updateIndex n st = st\<lparr>index := index st + n, column := column st + n\<rparr>"

definition updateLine :: "pstate \<Rightarrow> pstate" where
  "updateLine st = st\<lparr>line := line st + 1, column := 0\<rparr>"

definition error :: "string \<Rightarrow> SourceLocation option \<Rightarrow> pstate \<Rightarrow> 'a result" where
  "error msg loc st = Err (ParseError msg (case loc of None \<Rightarrow> getLocation st | Some l \<Rightarrow> l))"

definition expect :: "parser \<Rightarrow> string \<Rightarrow> string option \<Rightarrow> SourceLocation option \<Rightarrow> pstate \<Rightarrow> pstate result" where
  "expect p str msg loc st =
     (if \<not> isExpect p str (index st)
      then error (case msg of None \<Rightarrow> ''Expect string '' @ str
                  | Some m \<Rightarrow> if m = [] then ''Expect string '' @ str else m) loc st
      else Ok (updateIndex (length str) st))"

text \<open>The regular expression \<open>/^<\w+:?\s*[\{\w\/>]/\<close>, matched by hand.\<close>

definition isWordChar :: "char \<Rightarrow> bool" where
  "isWordChar c = (let n = (of_char c :: nat) in
     (48 \<le> n \<and> n \<le> 57) \<or> (65 \<le> n \<and> n \<le> 90) \<or> (97 \<le> n \<and> n \<le> 122) \<or> n = 95)"

definition isRegexpSpace :: "char \<Rightarrow> bool" where
  "isRegexpSpace c = (let n = (of_char c :: nat) in (9 \<le> n \<and> n \<le> 13) \<or> n = 32 \<or> n = 160)"

definition tagNameRegexp_test :: "string \<Rightarrow> bool" where
  "tagNameRegexp_test s =
     (case s of
        [] \<Rightarrow> False
      | c # r \<Rightarrow>
          c = CHR ''<'' \<and>
          (let w = takeWhile isWordChar r;
               rest = dropWhile isWordChar r;
               rest1 = (case rest of [] \<Rightarrow> [] | d # t \<Rightarrow> if d = CHR '':'' then t else rest);
               rest2 = dropWhile isRegexpSpace rest1
           in w \<noteq> [] \<and>
              (2 \<le> length w \<or>
               (case rest2 of
                  [] \<Rightarrow> False
                | e # t \<Rightarrow> e = CHR ''{'' \<or> isWordChar e \<or> e = CHR ''/'' \<or> e = CHR ''>''))))"

definition isTagStart :: "parser \<Rightarrow> nat \<Rightarrow> bool" where
  "isTagStart p i =
     (charAt p (int i) = Some CHR ''<'' \<and>
      (isExpect p ''<!--'' i \<or> tagNameRegexp_test (drop i (source p))))"

subsection \<open>Scanning loops that advance by one character\<close>

function skipWhitespace :: "parser \<Rightarrow> pstate \<Rightarrow> pstate" where
  "skipWhitespace p st =
     (if index st < length (source p) then
        (let code = charCode p st in
         if \<not> onCode (isWhiteSpace p) code then st
         else skipWhitespace p (updateIndex 1 (if code = Some 10 then updateLine st else st)))
      else st)"
  by pat_completeness auto
termination
  by (relation "measure (\<lambda>(p, st). length (source p) - index st)")
     (auto simp: updateIndex_def updateLine_def)

declare skipWhitespace.simps [simp del]

function scanJSXIdentifier :: "parser \<Rightarrow> pstate \<Rightarrow> pstate" where
  "scanJSXIdentifier p st =
     (if index st < length (source p) then
        (if \<not> onCode (isJSXIdentifierPart p) (charCode p st) then st
         else scanJSXIdentifier p (updateIndex 1 st))
      else st)"
  by pat_completeness auto
termination
  by (relation "measure (\<lambda>(p, st). length (source p) - index st)")
     (auto simp: updateIndex_def)

declare scanJSXIdentifier.simps [simp del]

function parseJSXComment_loop :: "parser \<Rightarrow> pstate \<Rightarrow> pstate" where
  "parseJSXComment_loop p st =
     (if index st < length (source p) then
        (if isExpect p ''-->'' (index st) then st
         else parseJSXComment_loop p
                (updateIndex 1 (if charCode p st = Some 10 then updateLine st else st)))
      else st)"
  by pat_completeness auto
termination
  by (relation "measure (\<lambda>(p, st). length (source p) - index st)")
     (auto simp: updateIndex_def updateLine_def)

declare parseJSXComment_loop.simps [simp del]

datatype stopChar = StopString string | StopFunction "pstate \<Rightarrow> bool"

fun stops :: "parser \<Rightarrow> stopChar list \<Rightarrow> pstate \<Rightarrow> bool" where
  "stops p [] st = False"
| "stops p (StopFunction f # cs) st = (f st \<or> stops p cs st)"
| "stops p (StopString s # cs) st = (isExpect p s (index st) \<or> stops p cs st)"

function scanJSXText_loop :: "parser \<Rightarrow> stopChar list \<Rightarrow> pstate \<Rightarrow> pstate" where
  "scanJSXText_loop p stopChars st =
     (if index st < length (source p) then
        (let code = charCode p st in
         if onCode (isWhiteSpace p) code
         then scanJSXText_loop p stopChars
                (updateIndex 1 (if code = Some 10 then updateLine st else st))
         else if stops p stopChars st then st
         else scanJSXText_loop p stopChars (updateIndex 1 st))
      else st)"
  by pat_completeness auto
termination
  by (relation "measure (\<lambda>(p, stopChars, st). length (source p) - index st)")
     (auto simp: updateIndex_def updateLine_def)

declare scanJSXText_loop.simps [simp del]

definition scanJSXText :: "parser \<Rightarrow> stopChar list \<Rightarrow> pstate \<Rightarrow> ASTNode \<times> pstate" where
  "scanJSXText p stopChars st =
     (let start = index st; loc = getLocation st; st' = scanJSXText_loop p stopChars st
      in (ASTText (getValue p start st') loc, st'))"

subsection \<open>Strings and comments\<close>

function scanString_loop :: "parser \<Rightarrow> char option \<Rightarrow> string \<Rightarrow> pstate \<Rightarrow> string \<times> bool \<times> pstate" where
  "scanString_loop p quote str st =
     (if index st < length (source p) then
        (let ch = pchar p st;
             st1 = updateIndex 1 (if charCode p st = Some 10 then updateLine st else st)
         in if ch = quote then (str, True, st1)
            else if ch = Some (CHR 0x5C)
            then scanString_loop p quote
                   (str @ (case charAt p (int (index st1)) of None \<Rightarrow> [] | Some c \<Rightarrow> [c]))
                   (updateIndex 1 st1)
            else scanString_loop p quote (str @ (case ch of None \<Rightarrow> [] | Some c \<Rightarrow> [c])) st1)
      else (str, False, st))"
  by pat_completeness auto
termination
  by (relation "measure (\<lambda>(p, quote, str, st). length (source p) - index st)")
     (auto simp: updateIndex_def updateLine_def)

declare scanString_loop.simps [simp del]

definition scanString :: "parser \<Rightarrow> pstate \<Rightarrow> (ASTNode \<times> pstate) result" where
  "scanString p st =
     (let loc = getLocation st;
          quote = pchar p st;
          (str, closed, st') = scanString_loop p quote [] (updateIndex 1 st)
      in if \<not> closed \<and> quote \<noteq> None then error ''Unclosed quote'' (Some loc) st'
         else Ok (ASTString str loc, st'))"

function skipLineComment :: "parser \<Rightarrow> pstate \<Rightarrow> pstate" where
  "skipLineComment p st =
     (if index st < length (source p) then
        (if charCode p st = Some 10 then st else skipLineComment p (updateIndex 1 st))
      else st)"
  by pat_completeness auto
termination
  by (relation "measure (\<lambda>(p, st). length (source p) - index st)")
     (auto simp: updateIndex_def)

declare skipLineComment.simps [simp del]

function skipBlockComment :: "parser \<Rightarrow> pstate \<Rightarrow> pstate" where
  "skipBlockComment p st =
     (if index st < length (source p) then
        (if isExpect p ''*/'' (index st) then updateIndex 2 st
         else skipBlockComment p
                (updateIndex 1 (if charCode p st = Some 10 then updateLine st else st)))
      else st)"
  by pat_completeness auto
termination
  by (relation "measure (\<lambda>(p, st). length (source p) - index st)")
     (auto simp: updateIndex_def updateLine_def)

declare skipBlockComment.simps [simp del]

definition skipJSComment_body :: "parser \<Rightarrow> pstate \<Rightarrow> pstate" where
  "skipJSComment_body p st =
     (if pchar p st = Some CHR ''/'' then
        (let ch = charAt p (int (index st) + 1)
         in if ch = Some CHR ''/'' then skipLineComment p (updateIndex 2 st)
            else if ch = Some CHR ''*'' then skipBlockComment p (updateIndex 2 st)
            else st)
      else st)"

lemma skipWhitespace_index: "index st \<le> index (skipWhitespace p st)"
proof (induction p st rule: skipWhitespace.induct)
  case (1 p st)
  show ?case
  proof (cases "index st < length (source p) \<and> onCode (isWhiteSpace p) (charCode p st)")
    case True
    then have eq: "skipWhitespace p st =
        skipWhitespace p (updateIndex 1 (if charCode p st = Some 10 then updateLine st else st))"
      by (subst skipWhitespace.simps) (simp add: Let_def)
    from True "1.IH"[OF _ refl] have "index (updateIndex 1 (if charCode p st = Some 10 then updateLine st else st))
        \<le> index (skipWhitespace p st)"
      unfolding eq by simp
    then show ?thesis by (simp add: updateIndex_def updateLine_def split: if_splits)
  next
    case False
    then show ?thesis by (subst skipWhitespace.simps) (auto simp: Let_def)
  qed
qed

lemma skipWhitespace_at_end: "length (source p) \<le> index st \<Longrightarrow> skipWhitespace p st = st"
  by (subst skipWhitespace.simps) simp

lemma skipLineComment_index: "index st \<le> index (skipLineComment p st)"
proof (induction p st rule: skipLineComment.induct)
  case (1 p st)
  show ?case
  proof (cases "index st < length (source p) \<and> charCode p st \<noteq> Some 10")
    case True
    then have eq: "skipLineComment p st = skipLineComment p (updateIndex 1 st)"
      by (subst skipLineComment.simps) simp
    from True "1.IH" have "index (updateIndex 1 st) \<le> index (skipLineComment p st)"
      unfolding eq by simp
    then show ?thesis by (simp add: updateIndex_def)
  next
    case False
    then show ?thesis by (subst skipLineComment.simps) auto
  qed
qed

lemma skipBlockComment_index: "index st \<le> index (skipBlockComment p st)"
proof (induction p st rule: skipBlockComment.induct)
  case (1 p st)
  show ?case
  proof (cases "index st < length (source p) \<and> \<not> isExpect p ''*/'' (index st)")
    case True
    then have eq: "skipBlockComment p st =
        skipBlockComment p (updateIndex 1 (if charCode p st = Some 10 then updateLine st else st))"
      by (subst skipBlockComment.simps) simp
    from True "1.IH" have "index (updateIndex 1 (if charCode p st = Some 10 then updateLine st else st))
        \<le> index (skipBlockComment p st)"
      unfolding eq by simp
    then show ?thesis by (simp add: updateIndex_def updateLine_def split: if_splits)
  next
    case False
    then show ?thesis by (subst skipBlockComment.simps) (auto simp: updateIndex_def)
  qed
qed

lemma skipJSComment_body_index: "index st \<le> index (skipJSComment_body p st)"
  using skipLineComment_index[of "updateIndex 2 st" p] skipBlockComment_index[of "updateIndex 2 st" p]
  by (auto simp: skipJSComment_body_def Let_def updateIndex_def)

lemma skipJSComment_body_at_end: "length (source p) \<le> index st \<Longrightarrow> skipJSComment_body p st = st"
  by (simp add: skipJSComment_body_def pchar_def charAt_def)

function skipJSComment :: "parser \<Rightarrow> pstate \<Rightarrow> pstate" where
  "skipJSComment p st =
     (let st' = skipJSComment_body p st
      in if index st \<noteq> index st' then skipJSComment p st' else st')"
  by pat_completeness auto
termination
proof (relation "measure (\<lambda>(p, st). length (source p) - index st)")
  show "wf (measure (\<lambda>(p, st). length (source p) - index st))" by simp
next
  fix p st x
  assume x: "x = skipJSComment_body p st" and ne: "index st \<noteq> index x"
  have le: "index st \<le> index x" unfolding x by (rule skipJSComment_body_index)
  have "index st < length (source p)"
  proof (rule ccontr)
    assume "\<not> index st < length (source p)"
    then have "skipJSComment_body p st = st" by (simp add: skipJSComment_body_at_end)
    with x ne show False by simp
  qed
  with le ne show "((p, x), (p, st)) \<in> measure (\<lambda>(p, st). length (source p) - index st)"
    by simp
qed

declare skipJSComment.simps [simp del]

lemma skipJSComment_index: "index st \<le> index (skipJSComment p st)"
proof (induction p st rule: skipJSComment.induct)
  case (1 p st)
  show ?case
  proof (cases "index st \<noteq> index (skipJSComment_body p st)")
    case True
    from "1.IH"[OF refl True] skipJSComment_body_index[of st p]
    show ?thesis by (subst skipJSComment.simps) (simp add: Let_def True)
  next
    case False
    then show ?thesis by (subst skipJSComment.simps) (simp add: Let_def)
  qed
qed

lemma skipJSComment_at_end: "length (source p) \<le> index st \<Longrightarrow> skipJSComment p st = st"
  by (subst skipJSComment.simps) (simp add: skipJSComment_body_at_end Let_def)

function skipWhitespaceAndJSComment :: "parser \<Rightarrow> pstate \<Rightarrow> pstate" where
  "skipWhitespaceAndJSComment p st =
     (let st' = skipJSComment p (skipWhitespace p st)
      in if index st \<noteq> index st' then skipWhitespaceAndJSComment p st' else st')"
  by pat_completeness auto
termination
proof (relation "measure (\<lambda>(p, st). length (source p) - index st)")
  show "wf (measure (\<lambda>(p, st). length (source p) - index st))" by simp
next
  fix p st x
  assume x: "x = skipJSComment p (skipWhitespace p st)" and ne: "index st \<noteq> index x"
  have le: "index st \<le> index x"
    unfolding x using skipWhitespace_index[of st p] skipJSComment_index[of "skipWhitespace p st" p]
    by simp
  have "index st < length (source p)"
  proof (rule ccontr)
    assume "\<not> index st < length (source p)"
    then have "skipJSComment p (skipWhitespace p st) = st"
      by (simp add: skipWhitespace_at_end skipJSComment_at_end)
    with x ne show False by simp
  qed
  with le ne show "((p, x), (p, st)) \<in> measure (\<lambda>(p, st). length (source p) - index st)"
    by simp
qed

declare skipWhitespaceAndJSComment.simps [simp del]

lemma skipWhitespaceAndJSComment_index: "index st \<le> index (skipWhitespaceAndJSComment p st)"
proof (induction p st rule: skipWhitespaceAndJSComment.induct)
  case (1 p st)
  have le: "index st \<le> index (skipJSComment p (skipWhitespace p st))"
    using skipWhitespace_index[of st p] skipJSComment_index[of "skipWhitespace p st" p] by simp
  show ?case
  proof (cases "index st \<noteq> index (skipJSComment p (skipWhitespace p st))")
    case True
    from "1.IH"[OF refl True] le
    show ?thesis by (subst skipWhitespaceAndJSComment.simps) (simp add: Let_def True)
  next
    case False
    then show ?thesis by (subst skipWhitespaceAndJSComment.simps) (simp add: Let_def)
  qed
qed

lemma skipWhitespaceAndJSComment_at_end:
  "length (source p) \<le> index st \<Longrightarrow> skipWhitespaceAndJSComment p st = st"
  by (subst skipWhitespaceAndJSComment.simps)
     (simp add: skipWhitespace_at_end skipJSComment_at_end Let_def)

lemma scanString_loop_index:
  "scanString_loop p quote str st = (str', closed, st') \<Longrightarrow> index st \<le> index st'"
proof (induction p quote str st arbitrary: str' closed st' rule: scanString_loop.induct)
  case (1 p quote str st)
  let ?st1 = "updateIndex 1 (if charCode p st = Some 10 then updateLine st else st)"
  have i1: "index ?st1 = index st + 1" by (simp add: updateIndex_def updateLine_def)
  show ?case
  proof (cases "index st < length (source p)")
    case False
    with "1.prems" show ?thesis by (subst (asm) scanString_loop.simps) simp
  next
    case True
    show ?thesis
    proof (cases "pchar p st = quote")
      case q: True
      with True "1.prems" i1 show ?thesis
        by (subst (asm) scanString_loop.simps) (auto simp: Let_def)
    next
      case q: False
      show ?thesis
      proof (cases "pchar p st = Some (CHR 0x5C)")
        case b: True
        from "1.prems" True q b have
          "scanString_loop p quote
             (str @ (case charAt p (int (index ?st1)) of None \<Rightarrow> [] | Some c \<Rightarrow> [c]))
             (updateIndex 1 ?st1) = (str', closed, st')"
          by (subst (asm) scanString_loop.simps) (simp add: Let_def)
        from "1.IH"(1)[OF True refl refl q b this] i1 show ?thesis
          by (simp add: updateIndex_def)
      next
        case b: False
        from "1.prems" True q b have
          "scanString_loop p quote (str @ (case pchar p st of None \<Rightarrow> [] | Some c \<Rightarrow> [c])) ?st1
             = (str', closed, st')"
          by (subst (asm) scanString_loop.simps) (simp add: Let_def)
        from "1.IH"(2)[OF True refl refl q b this] i1 show ?thesis by simp
      qed
    qed
  qed
qed

lemma scanString_index: "scanString p st = Ok (n, st') \<Longrightarrow> index st < index st'"
proof -
  assume a: "scanString p st = Ok (n, st')"
  obtain str closed st1 where l: "scanString_loop p (pchar p st) [] (updateIndex 1 st) = (str, closed, st1)"
    by (cases "scanString_loop p (pchar p st) [] (updateIndex 1 st)") auto
  from a l have "st' = st1"
    by (auto simp: scanString_def Let_def error_def split: if_splits)
  with scanString_loop_index[OF l] show ?thesis by (simp add: updateIndex_def)
qed

subsection \<open>Looking backwards\<close>

function backWhitespace :: "parser \<Rightarrow> int \<Rightarrow> int" where
  "backWhitespace p start =
     (if 0 \<le> start then
        (if \<not> onCode (isWhiteSpaceExceptLinebreak p) (charCodeAt p start) then start
         else backWhitespace p (start - 1))
      else start)"
  by pat_completeness auto
termination
  by (relation "measure (\<lambda>(p, start). nat (start + 1))") auto

declare backWhitespace.simps [simp del]

function backCommentOpen :: "parser \<Rightarrow> int \<Rightarrow> int" where
  "backCommentOpen p start =
     (if 0 \<le> start then
        (if charAt p start = Some CHR ''*'' \<and> charAt p (start - 1) = Some CHR ''/'' then start - 2
         else backCommentOpen p (start - 1))
      else start)"
  by pat_completeness auto
termination
  by (relation "measure (\<lambda>(p, start). nat (start + 1))") auto

declare backCommentOpen.simps [simp del]

definition backComment :: "parser \<Rightarrow> int \<Rightarrow> int" where
  "backComment p start =
     (if 0 \<le> start \<and> charAt p start = Some CHR ''/'' \<and> charAt p (start - 1) = Some CHR ''*''
      then backCommentOpen p (start - 2) else start)"

lemma backWhitespace_le: "backWhitespace p start \<le> start"
proof (induction p start rule: backWhitespace.induct)
  case (1 p start)
  show ?case
  proof (cases "0 \<le> start \<and> onCode (isWhiteSpaceExceptLinebreak p) (charCodeAt p start)")
    case True
    then have "backWhitespace p start = backWhitespace p (start - 1)"
      by (subst backWhitespace.simps) simp
    with True "1.IH" show ?thesis by simp
  next
    case False
    then show ?thesis by (subst backWhitespace.simps) auto
  qed
qed

lemma backCommentOpen_le: "backCommentOpen p start \<le> start"
proof (induction p start rule: backCommentOpen.induct)
  case (1 p start)
  show ?case
  proof (cases "0 \<le> start \<and> \<not> (charAt p start = Some CHR ''*'' \<and> charAt p (start - 1) = Some CHR ''/'')")
    case True
    then have "backCommentOpen p start = backCommentOpen p (start - 1)"
      by (subst backCommentOpen.simps) auto
    with True "1.IH" show ?thesis by auto
  next
    case False
    then show ?thesis by (subst backCommentOpen.simps) auto
  qed
qed

lemma backComment_le: "backComment p start \<le> start"
  using backCommentOpen_le[of p "start - 2"] by (simp add: backComment_def)

lemma back_negative: "start < 0 \<Longrightarrow> backComment p (backWhitespace p start) = start"
  by (subst backWhitespace.simps) (simp add: backComment_def)

function getLastCharCode_loop :: "parser \<Rightarrow> int \<Rightarrow> int" where
  "getLastCharCode_loop p start =
     (let start' = backComment p (backWhitespace p start)
      in if start' \<noteq> start then getLastCharCode_loop p start' else start')"
  by pat_completeness auto
termination
proof (relation "measure (\<lambda>(p, start). nat (start + 1))")
  show "wf (measure (\<lambda>(p, start). nat (start + 1)))" by simp
next
  fix p :: parser and start x :: int
  assume x: "x = backComment p (backWhitespace p start)" and ne: "x \<noteq> start"
  have le: "x \<le> start"
    unfolding x using backComment_le[of p "backWhitespace p start"] backWhitespace_le[of p start]
    by simp
  have "0 \<le> start"
  proof (rule ccontr)
    assume "\<not> 0 \<le> start"
    then have "backComment p (backWhitespace p start) = start" by (simp add: back_negative)
    with x ne show False by simp
  qed
  with le ne show "((p, x), (p, start)) \<in> measure (\<lambda>(p, start). nat (start + 1))"
    by simp
qed

declare getLastCharCode_loop.simps [simp del]

definition getLastCharCode :: "parser \<Rightarrow> pstate \<Rightarrow> nat option" where
  "getLastCharCode p st = charCodeAt p (getLastCharCode_loop p (int (index st) - 1))"

text \<open>
  \<open>getFirstSpaceColumn\<close> walks back from \<open>index - 1\<close> until a line break or position 0.
  Called at index 0 it starts at -1 and only decreases, so the \<open>do ... while (true)\<close>
  loop never ends: the value \<open>None\<close>.
\<close>

fun getFirstSpaceColumn_loop :: "parser \<Rightarrow> nat \<Rightarrow> bool \<Rightarrow> nat \<Rightarrow> nat" where
  "getFirstSpaceColumn_loop p 0 hasSet s = (if \<not> hasSet then 0 else s)"
| "getFirstSpaceColumn_loop p (Suc n) hasSet s =
     (let ch = charAt p (int (Suc n))
      in if ch = Some (CHR 0x0A) then (if \<not> hasSet then Suc n else s)
         else if ch = Some CHR '' ''
         then (if \<not> hasSet then getFirstSpaceColumn_loop p n True (Suc n)
               else getFirstSpaceColumn_loop p n hasSet s)
         else getFirstSpaceColumn_loop p n False s)"

definition getFirstSpaceColumn :: "parser \<Rightarrow> pstate \<Rightarrow> int option" where
  "getFirstSpaceColumn p st =
     (if index st = 0 then None
      else Some (int (column st) -
                 (int (index st) - int (getFirstSpaceColumn_loop p (index st - 1) False 0))))"

definition trimRightString :: "parser \<Rightarrow> string \<Rightarrow> string" where
  "trimRightString p code = rev (dropWhile (\<lambda>c. isWhiteSpace p (of_char c)) (rev code))"

fun trimRightForValue_rev :: "parser \<Rightarrow> string list \<Rightarrow> string list" where
  "trimRightForValue_rev p [] = []"
| "trimRightForValue_rev p (code # rest) =
     (if trimRightString p code = [] then trimRightForValue_rev p rest
      else trimRightString p code # rest)"

definition trimRightForValue :: "parser \<Rightarrow> string list \<Rightarrow> string list" where
  "trimRightForValue p v = rev (trimRightForValue_rev p (rev v))"

function skipWhitespaceBetweenTags_loop :: "parser \<Rightarrow> string \<Rightarrow> bool \<Rightarrow> nat \<Rightarrow> pstate \<Rightarrow> pstate" where
  "skipWhitespaceBetweenTags_loop p endTag skipBeforeDelimiter start st =
     (if start < length (source p) then
        (if onCode (isWhiteSpace p) (charCodeAt p (int start))
         then skipWhitespaceBetweenTags_loop p endTag skipBeforeDelimiter (start + 1) st
         else if isExpect p endTag start \<or> isTagStart p start \<or>
                 (skipBeforeDelimiter \<and> isExpect p (fst (delimiters p)) start)
         then skipWhitespace p st
         else st)
      else st)"
  by pat_completeness auto
termination
  by (relation "measure (\<lambda>(p, endTag, skipBeforeDelimiter, start, st). length (source p) - start)") auto

declare skipWhitespaceBetweenTags_loop.simps [simp del]

definition skipWhitespaceBetweenTags :: "parser \<Rightarrow> string \<Rightarrow> bool \<Rightarrow> pstate \<Rightarrow> pstate" where
  "skipWhitespaceBetweenTags p endTag skipBeforeDelimiter st =
     skipWhitespaceBetweenTags_loop p endTag skipBeforeDelimiter (index st) st"

subsection \<open>Script fragments\<close>

record scanJS_vars =
  jvalue :: "string list"
  jstart :: nat
  spacesRemain :: int
  newLine :: bool
  leadSpaces :: nat
  shouldTrimRight :: bool
  braces_count :: int

datatype 'a step = Continue 'a | Break 'a

text \<open>
  The test of \<open>scanJS\<close> for the start of a string, a template literal or a regular
  expression literal.
\<close>

definition isStringStart :: "parser \<Rightarrow> pstate \<Rightarrow> bool" where
  "isStringStart p st =
     (let ch = pchar p st
      in ch = Some (CHR 0x27) \<or> ch = Some (CHR 0x22) \<or> ch = Some (CHR 0x60) \<or>
         (ch = Some CHR ''/'' \<and>
          (let tmp = charAt p (int (index st) + 1)
           in tmp \<noteq> None \<and> tmp \<noteq> Some CHR ''*'' \<and> tmp \<noteq> Some CHR ''/'' \<and>
              (index st = 0 \<or>
               (let prev = charAt p (int (index st) - 1)
                in prev \<noteq> None \<and> prev \<noteq> Some CHR ''<'' \<and>
                   (let code = getLastCharCode p st
                    in code \<noteq> None \<and> code \<noteq> Some 0 \<and>
                       \<not> onCode (isJSIdentifierPart p) code \<and> code \<noteq> Some 41))))))"

text \<open>One pass through the body of the \<open>while\<close> loop of \<open>scanJS\<close>.\<close>

definition scanJS_body ::
  "parser \<Rightarrow> bool \<Rightarrow> int \<Rightarrow> scanJS_vars \<Rightarrow> pstate \<Rightarrow> (scanJS_vars \<times> pstate) step result" where
  "scanJS_body p isRoot spaces v st0 =
     (let st = skipJSComment p st0;
          ch = pchar p st
      in if isStringStart p st then
           (case scanString p st of
              Err e \<Rightarrow> Err e
            | OutOfFuel \<Rightarrow> OutOfFuel
            | Ok (str, st') \<Rightarrow> Ok (Continue (v, st')))
         else if isTagStart p (index st) then Ok (Break (v, st))
         else if isRoot \<and> isJSImport p st then Ok (Break (v, st))
         else if ch = Some (CHR 0x0A) then
           Ok (Continue
                 (v\<lparr>jvalue := jvalue v @ [getValue p (jstart v) st], jstart := index st + 1,
                    spacesRemain := spaces, newLine := True, leadSpaces := 0\<rparr>,
                  updateIndex 1 (updateLine st)))
         else if newLine v \<and> ch = Some CHR '' '' then
           Ok (Continue
                 ((if spacesRemain v \<noteq> 0
                   then v\<lparr>spacesRemain := spacesRemain v - 1, jstart := jstart v + 1\<rparr>
                   else v\<lparr>leadSpaces := leadSpaces v + 1\<rparr>),
                  updateIndex 1 st))
         else if ch = Some CHR ''{'' then
           Ok (Continue (v\<lparr>braces_count := braces_count v + 1, newLine := False\<rparr>, updateIndex 1 st))
         else if 0 < braces_count v \<and> ch = Some CHR ''}'' then
           Ok (Continue (v\<lparr>braces_count := braces_count v - 1, newLine := False\<rparr>, updateIndex 1 st))
         else if isExpect p (snd (delimiters p)) (index st) then
           Ok (Break (v\<lparr>braces_count := braces_count v - 1, shouldTrimRight := True\<rparr>, st))
         else Ok (Continue (v\<lparr>newLine := False\<rparr>, updateIndex 1 st)))"

lemma scanJS_body_progress:
  "scanJS_body p isRoot spaces v st = Ok (Continue (v', st')) \<Longrightarrow> index st < index st'"
proof -
  assume a: "scanJS_body p isRoot spaces v st = Ok (Continue (v', st'))"
  let ?st = "skipJSComment p st"
  have le: "index st \<le> index ?st" by (rule skipJSComment_index)
  show ?thesis
  proof (cases "isStringStart p ?st")
    case True
    with a obtain str where "scanString p ?st = Ok (str, st')"
      by (auto simp: scanJS_body_def Let_def split: result.splits)
    from scanString_index[OF this] le show ?thesis by simp
  next
    case False
    with a have "index st' = index ?st + 1"
      by (auto simp: scanJS_body_def Let_def updateIndex_def updateLine_def split: if_splits)
    with le show ?thesis by simp
  qed
qed

function scanJS_loop ::
  "parser \<Rightarrow> bool \<Rightarrow> int \<Rightarrow> scanJS_vars \<Rightarrow> pstate \<Rightarrow> (scanJS_vars \<times> pstate) result" where
  "scanJS_loop p isRoot spaces v st =
     (if index st < length (source p) then
        (case scanJS_body p isRoot spaces v st of
           Err e \<Rightarrow> Err e
         | OutOfFuel \<Rightarrow> OutOfFuel
         | Ok (Break r) \<Rightarrow> Ok r
         | Ok (Continue (v', st')) \<Rightarrow> scanJS_loop p isRoot spaces v' st')
      else Ok (v, st))"
  by pat_completeness auto
termination
proof (relation "measure (\<lambda>(p, isRoot, spaces, v, st). length (source p) - index st)")
  show "wf (measure (\<lambda>(p, isRoot, spaces, v, st). length (source p) - index st))" by simp
next
  fix p isRoot spaces v st x2 x1 x y
  assume lt: "index st < length (source p)"
    and b: "scanJS_body p isRoot spaces v st = Ok x2" "x2 = Continue x1" "(x, y) = x1"
  then have "scanJS_body p isRoot spaces v st = Ok (Continue (x, y))" by simp
  from scanJS_body_progress[OF this] lt
  show "((p, isRoot, spaces, x, y), (p, isRoot, spaces, v, st))
          \<in> measure (\<lambda>(p, isRoot, spaces, v, st). length (source p) - index st)"
    by simp
qed

declare scanJS_loop.simps [simp del]

definition scanJS :: "parser \<Rightarrow> int \<Rightarrow> bool \<Rightarrow> int \<Rightarrow> pstate \<Rightarrow> (ASTNode \<times> int \<times> pstate) result" where
  "scanJS p braces isRoot spaces st =
     (let loc = getLocation st;
          v = \<lparr>jvalue = [], jstart = index st, spacesRemain = spaces, newLine = True,
                leadSpaces = 0, shouldTrimRight = False, braces_count = braces\<rparr>
      in case scanJS_loop p isRoot spaces v st of
           Err e \<Rightarrow> Err e
         | OutOfFuel \<Rightarrow> OutOfFuel
         | Ok (v', st') \<Rightarrow>
             (let value = jvalue v' @ [getValue p (jstart v') st'];
                  value' = (if shouldTrimRight v' then trimRightForValue p value else value)
              in Ok (ASTJS value' (int (leadSpaces v')) loc, braces_count v', st')))"

subsection \<open>Hoisted imports\<close>

definition scanJSImport_semicolon :: "parser \<Rightarrow> pstate \<Rightarrow> pstate" where
  "scanJSImport_semicolon p st =
     (let st1 = skipWhitespaceAndJSComment p st
      in if pchar p st1 = Some CHR '';'' then updateIndex 1 st1 else st1)"

lemma scanJSImport_semicolon_index: "index st \<le> index (scanJSImport_semicolon p st)"
  using skipWhitespaceAndJSComment_index[of st p]
  by (auto simp: scanJSImport_semicolon_def Let_def updateIndex_def)

lemma scanJSImport_semicolon_at_end:
  "length (source p) \<le> index st \<Longrightarrow> scanJSImport_semicolon p st = st"
  by (simp add: scanJSImport_semicolon_def skipWhitespaceAndJSComment_at_end pchar_def charAt_def)

function scanJSImport_semicolons :: "parser \<Rightarrow> pstate \<Rightarrow> pstate" where
  "scanJSImport_semicolons p st =
     (let st' = scanJSImport_semicolon p st
      in if index st \<noteq> index st' then scanJSImport_semicolons p st' else st')"
  by pat_completeness auto
termination
proof (relation "measure (\<lambda>(p, st). length (source p) - index st)")
  show "wf (measure (\<lambda>(p, st). length (source p) - index st))" by simp
next
  fix p st x
  assume x: "x = scanJSImport_semicolon p st" and ne: "index st \<noteq> index x"
  have le: "index st \<le> index x" unfolding x by (rule scanJSImport_semicolon_index)
  have "index st < length (source p)"
  proof (rule ccontr)
    assume "\<not> index st < length (source p)"
    then have "scanJSImport_semicolon p st = st" by (simp add: scanJSImport_semicolon_at_end)
    with x ne show False by simp
  qed
  with le ne show "((p, x), (p, st)) \<in> measure (\<lambda>(p, st). length (source p) - index st)"
    by simp
qed

declare scanJSImport_semicolons.simps [simp del]

function scanJSImport_loop :: "parser \<Rightarrow> pstate \<Rightarrow> pstate result" where
  "scanJSImport_loop p st =
     (if index st < length (source p) then
        (let ch = pchar p st
         in if ch = Some (CHR 0x27) \<or> ch = Some (CHR 0x22) then
              (case scanString p st of
                 Err e \<Rightarrow> Err e
               | OutOfFuel \<Rightarrow> OutOfFuel
               | Ok (str, st') \<Rightarrow> Ok (scanJSImport_semicolons p st'))
            else scanJSImport_loop p (updateIndex 1 st))
      else Ok st)"
  by pat_completeness auto
termination
  by (relation "measure (\<lambda>(p, st). length (source p) - index st)")
     (auto simp: updateIndex_def)

declare scanJSImport_loop.simps [simp del]

definition scanJSImport :: "parser \<Rightarrow> pstate \<Rightarrow> (ASTNode \<times> pstate) result" where
  "scanJSImport p st =
     (let start = index st; loc = getLocation st
      in case scanJSImport_loop p (updateIndex 7 st) of
           Err e \<Rightarrow> Err e
         | OutOfFuel \<Rightarrow> OutOfFuel
         | Ok st' \<Rightarrow> Ok (ASTHoist (getValue p start st') loc, st'))"

subsection \<open>Markup: names, comments, closing tags\<close>

definition parseJSXAttributeName :: "parser \<Rightarrow> pstate \<Rightarrow> (string \<times> pstate) result" where
  "parseJSXAttributeName p st =
     (if NODE_ENV p \<noteq> ''production'' \<and> \<not> onCode (isJSXIdentifierPart p) (charCode p st)
      then error (''Unexpected identifier '' @ (case pchar p st of None \<Rightarrow> [] | Some c \<Rightarrow> [c])) None st
      else (let start = index st; st' = scanJSXIdentifier p st
            in Ok (getValue p start st', st')))"

definition parseJSXComment :: "parser \<Rightarrow> pstate \<Rightarrow> (ASTNode \<times> pstate) result" where
  "parseJSXComment p st =
     (case expect p ''!--'' None None st of
        Err e \<Rightarrow> Err e
      | OutOfFuel \<Rightarrow> OutOfFuel
      | Ok st1 \<Rightarrow>
          (let start = index st1; loc = getLocation st1;
               st2 = parseJSXComment_loop p st1;
               value = getValue p start st2
           in case expect p ''-->'' None None st2 of
                Err e \<Rightarrow> Err e
              | OutOfFuel \<Rightarrow> OutOfFuel
              | Ok st3 \<Rightarrow> Ok (ASTComment value loc, st3)))"

definition parseJSXClosingTag :: "parser \<Rightarrow> string \<Rightarrow> SourceLocation \<Rightarrow> pstate \<Rightarrow> pstate result" where
  "parseJSXClosingTag p endTag loc st =
     (case expect p ''</'' (Some (''Unclosed tag: '' @ endTag)) (Some loc) st of
        Err e \<Rightarrow> Err e
      | OutOfFuel \<Rightarrow> OutOfFuel
      | Ok st1 \<Rightarrow> expect p ''>'' None None (skipWhitespace p (scanJSXIdentifier p st1)))"

subsection \<open>Expressions and attributes\<close>

type_synonym parseFn = "int \<Rightarrow> pstate \<Rightarrow> (ASTNode list \<times> pstate) result"
type_synonym scanFn = "pstate \<Rightarrow> (ASTNode \<times> pstate) result"

text \<open>
  \<open>parseJSXExpression\<close> calls \<open>this.parse(false, spaceColumn)\<close>; the functions below take
  that callee as the parameter \<open>parse\<close>, and \<open>this.scanJSX()\<close> as the parameter
  \<open>scanJSX\<close>. The recursion is closed at the end. \<open>parseJSXExpression_head\<close> is the
  part of \<open>parseJSXExpression\<close> before the body of the expression: the opening
  delimiter, whitespace and comments, the indentation column and the \<open>=\<close> mark.
\<close>

definition parseJSXExpression_head :: "parser \<Rightarrow> pstate \<Rightarrow> (ASTTypes \<times> int \<times> pstate) result" where
  "parseJSXExpression_head p st =
     (case expect p (fst (delimiters p)) None None st of
        Err e \<Rightarrow> Err e
      | OutOfFuel \<Rightarrow> OutOfFuel
      | Ok st1 \<Rightarrow>
          (let st2 = skipWhitespaceAndJSComment p st1
           in case getFirstSpaceColumn p st2 of
                None \<Rightarrow> OutOfFuel
              | Some spaceColumn \<Rightarrow>
                  if isExpect p ''='' (index st2)
                  then (case expect p ''='' None None st2 of
                          Err e \<Rightarrow> Err e
                        | OutOfFuel \<Rightarrow> OutOfFuel
                        | Ok st' \<Rightarrow> Ok (JSXUnescapeText, spaceColumn, skipWhitespace p st'))
                  else Ok (JSXExpression, spaceColumn, st2)))"

definition parseJSXExpression :: "parser \<Rightarrow> parseFn \<Rightarrow> pstate \<Rightarrow> (ASTNode \<times> pstate) result" where
  "parseJSXExpression p parse st =
     (let loc = getLocation st
      in case parseJSXExpression_head p st of
           Err e \<Rightarrow> Err e
         | OutOfFuel \<Rightarrow> OutOfFuel
         | Ok (type, spaceColumn, st3) \<Rightarrow>
             (case (if isExpect p (snd (delimiters p)) (index st3)
                    then Ok ([], st3)
                    else parse spaceColumn st3) of
                Err e \<Rightarrow> Err e
              | OutOfFuel \<Rightarrow> OutOfFuel
              | Ok (value, st4) \<Rightarrow>
                  (case expect p (snd (delimiters p)) (Some ''Unclosed delimiter'') (Some loc) st4 of
                     Err e \<Rightarrow> Err e
                   | OutOfFuel \<Rightarrow> OutOfFuel
                   | Ok st5 \<Rightarrow> Ok (ASTExpression type value loc, st5))))"

definition parseJSXAttributeValue :: "parser \<Rightarrow> parseFn \<Rightarrow> pstate \<Rightarrow> (ASTNode \<times> pstate) result" where
  "parseJSXAttributeValue p parse st =
     (if isExpect p (fst (delimiters p)) (index st) then parseJSXExpression p parse st
      else (let quote = pchar p st
            in if quote \<noteq> Some (CHR 0x27) \<and> quote \<noteq> Some (CHR 0x22) \<and> quote \<noteq> Some (CHR 0x60)
               then error ''String value of attribute must start with a quote.'' None st
               else scanString p st))"

record attrs =
  attributes :: "ASTNode list"
  adirectives :: Directives
  keyed :: bool
  hasVRaw :: bool

text \<open>
  The development-mode checks of \<open>parseJSXAttribute\<close>, with the guard as the source
  spells it.
\<close>

definition validateAttribute ::
  "parser \<Rightarrow> string \<Rightarrow> ASTTypes \<Rightarrow> string \<Rightarrow> ASTNode \<Rightarrow> perror option" where
  "validateAttribute p tag type name value =
     (if NODE_ENV p \<noteq> ''produdction'' then
        (case (if directivesMap p name
               then validateDirectiveValue p name (node_type value) tag type (source p) (node_loc value)
               else None) of
           Some e \<Rightarrow> Some e
         | None \<Rightarrow>
             if type = JSXBlock
             then validateAttributeForBlock p tag name value (node_loc value) (source p)
             else None)
      else None)"

definition assign :: "string \<Rightarrow> ASTNode \<Rightarrow> (string \<times> ASTNode) list \<Rightarrow> (string \<times> ASTNode) list" where
  "assign name v m = (name, v) # filter (\<lambda>e. fst e \<noteq> name) m"

text \<open>
  The end of the loop body of \<open>parseJSXAttribute\<close>: the attribute goes into the directive
  mapping or onto the attribute list. A new directive node gets the next free address; its
  \<open>next\<close> field is \<open>null\<close>, that is, absent from \<open>nexts\<close>.
\<close>

definition routeAttribute ::
  "parser \<Rightarrow> string \<Rightarrow> ASTNode \<Rightarrow> SourceLocation \<Rightarrow> attrs \<Rightarrow> pstate \<Rightarrow> attrs \<times> pstate" where
  "routeAttribute p name value loc acc st =
     (let ds = adirectives acc
      in if name = Directives_If \<or> name = Directives_ElseIf \<or> name = Directives_Else
         then
           (let d = ASTDirectiveIf name value (fresh st) loc;
                st' = st\<lparr>fresh := fresh st + 1\<rparr>;
                ds' = (if name = Directives_If
                       then Directives (Some d) (dElseIf ds) (dElse ds) (dCommon ds)
                       else if name = Directives_ElseIf
                       then Directives (dIf ds) (Some d) (dElse ds) (dCommon ds)
                       else Directives (dIf ds) (dElseIf ds) (Some d) (dCommon ds))
            in (acc\<lparr>adirectives := ds'\<rparr>, st'))
         else
           (let attr = ASTAttribute name value loc
            in if directivesMap p name
               then (acc\<lparr>hasVRaw := (if name = Directives_Raw then True else hasVRaw acc),
                         adirectives :=
                           Directives (dIf ds) (dElseIf ds) (dElse ds)
                             (assign name attr (dCommon ds))\<rparr>, st)
               else (acc\<lparr>attributes := attributes acc @ [attr]\<rparr>, st)))"

text \<open>The value of a named attribute: what follows \<open>=\<close>, or the placeholder for \<open>true\<close>.\<close>

definition parseJSXAttribute_value :: "parser \<Rightarrow> parseFn \<Rightarrow> pstate \<Rightarrow> (ASTNode \<times> pstate) result" where
  "parseJSXAttribute_value p parse st =
     (if pchar p st = Some CHR ''=''
      then parseJSXAttributeValue p parse (updateIndex 1 st)
      else Ok (ASTNone (getLocation st), st))"

text \<open>The part of the loop body of \<open>parseJSXAttribute\<close> that reads one named attribute.\<close>

definition parseJSXAttribute_named ::
  "parser \<Rightarrow> parseFn \<Rightarrow> string \<Rightarrow> ASTTypes \<Rightarrow> attrs \<Rightarrow> pstate \<Rightarrow> (attrs \<times> pstate) result" where
  "parseJSXAttribute_named p parse tag type acc st =
     (let loc = getLocation st
      in case parseJSXAttributeName p st of
           Err e \<Rightarrow> Err e
         | OutOfFuel \<Rightarrow> OutOfFuel
         | Ok (name, st1) \<Rightarrow>
             (let acc1 = (if \<not> keyed acc \<and> name = ''key'' then acc\<lparr>keyed := True\<rparr> else acc)
              in case parseJSXAttribute_value p parse st1 of
                   Err e \<Rightarrow> Err e
                 | OutOfFuel \<Rightarrow> OutOfFuel
                 | Ok (value, st2) \<Rightarrow>
                     (case validateAttribute p tag type name value of
                        Some e \<Rightarrow> Err e
                      | None \<Rightarrow> Ok (routeAttribute p name value loc acc1 st2))))"

fun expressionValue :: "ASTNode \<Rightarrow> ASTNode list" where
  "expressionValue (ASTExpression t v l) = v"
| "expressionValue _ = []"

fun parseJSXAttribute_loop ::
  "nat \<Rightarrow> parser \<Rightarrow> parseFn \<Rightarrow> string \<Rightarrow> ASTTypes \<Rightarrow> attrs \<Rightarrow> pstate \<Rightarrow> (attrs \<times> pstate) result" where
  "parseJSXAttribute_loop 0 p parse tag type acc st = OutOfFuel"
| "parseJSXAttribute_loop (Suc k) p parse tag type acc st =
     (if index st < length (source p) then
        (let st1 = skipWhitespace p st
         in if pchar p st1 = Some CHR ''/'' \<or> pchar p st1 = Some CHR ''>'' then Ok (acc, st1)
            else if isExpect p (fst (delimiters p)) (index st1) then
              (case parseJSXExpression p parse st1 of
                 Err e \<Rightarrow> Err e
               | OutOfFuel \<Rightarrow> OutOfFuel
               | Ok (expression, st2) \<Rightarrow>
                   parseJSXAttribute_loop k p parse tag type
                     (if expressionValue expression \<noteq> []
                      then acc\<lparr>attributes := attributes acc @ [expression]\<rparr> else acc) st2)
            else
              (case parseJSXAttribute_named p parse tag type acc st1 of
                 Err e \<Rightarrow> Err e
               | OutOfFuel \<Rightarrow> OutOfFuel
               | Ok (acc', st2) \<Rightarrow> parseJSXAttribute_loop k p parse tag type acc' st2))
      else Ok (acc, st))"

definition parseJSXAttribute ::
  "nat \<Rightarrow> parser \<Rightarrow> parseFn \<Rightarrow> string \<Rightarrow> ASTTypes \<Rightarrow> pstate \<Rightarrow> (attrs \<times> pstate) result" where
  "parseJSXAttribute fuel p parse tag type st =
     parseJSXAttribute_loop fuel p parse tag type
       \<lparr>attributes = [], adirectives = Directives None None None [], keyed = False, hasVRaw = False\<rparr> st"

text \<open>
  The attribute names that the loop of \<open>parseJSXAttribute\<close> reads from the source, each
  with the index at which \<open>parseJSXAttributeName\<close> finds it, in the order of the source.
  This is the same run as \<open>parseJSXAttribute_loop\<close>; it only keeps the names.
\<close>

fun parseJSXAttribute_names ::
  "nat \<Rightarrow> parser \<Rightarrow> parseFn \<Rightarrow> string \<Rightarrow> ASTTypes \<Rightarrow> attrs \<Rightarrow> pstate \<Rightarrow> (nat \<times> string) list" where
  "parseJSXAttribute_names 0 p parse tag type acc st = []"
| "parseJSXAttribute_names (Suc k) p parse tag type acc st =
     (if index st < length (source p) then
        (let st1 = skipWhitespace p st
         in if pchar p st1 = Some CHR ''/'' \<or> pchar p st1 = Some CHR ''>'' then []
            else if isExpect p (fst (delimiters p)) (index st1) then
              (case parseJSXExpression p parse st1 of
                 Ok (expression, st2) \<Rightarrow>
                   parseJSXAttribute_names k p parse tag type
                     (if expressionValue expression \<noteq> []
                      then acc\<lparr>attributes := attributes acc @ [expression]\<rparr> else acc) st2
               | _ \<Rightarrow> [])
            else
              (case parseJSXAttributeName p st1 of
                 Ok (name, st1') \<Rightarrow>
                   (index st1, name) #
                   (case parseJSXAttribute_named p parse tag type acc st1 of
                      Ok (acc', st2) \<Rightarrow> parseJSXAttribute_names k p parse tag type acc' st2
                    | _ \<Rightarrow> [])
               | _ \<Rightarrow> []))
      else [])"

definition attributeNames ::
  "nat \<Rightarrow> parser \<Rightarrow> parseFn \<Rightarrow> string \<Rightarrow> ASTTypes \<Rightarrow> pstate \<Rightarrow> (nat \<times> string) list" where
  "attributeNames fuel p parse tag type st =
     parseJSXAttribute_names fuel p parse tag type
       \<lparr>attributes = [], adirectives = Directives None None None [], keyed = False, hasVRaw = False\<rparr> st"

subsection \<open>Children and the directive chain\<close>

text \<open>
  The part of the loop body of \<open>parseJSXChildrenValue\<close> that follows
  \<open>const child = this.parseJSXChild(endTag, isTextTag)\<close>. \<open>directiveIf\<close> is the address
  of the directive node the variable points to, or \<open>None\<close> for \<open>null\<close>; the assignment
  \<open>directiveIf!.next = child\<close> writes the store \<open>nexts\<close>, and is a TypeError when
  \<open>directiveIf\<close> is \<open>null\<close>. The result tells the new \<open>directiveIf\<close>, the new store,
  and whether the child is pushed onto \<open>children\<close> (it is not after \<open>continue\<close>).
\<close>

definition mustBeLead :: "string \<Rightarrow> string" where
  "mustBeLead name =
     [CHR 0x27] @ name @ [CHR 0x27] @ '' must be lead with '' @ [CHR 0x27] @ ''v-if'' @ [CHR 0x27] @
     '' or '' @ [CHR 0x27] @ ''v-else-if'' @ [CHR 0x27]"

definition linkNext ::
  "parser \<Rightarrow> ASTNode \<Rightarrow> ASTDirectiveIf \<Rightarrow> bool \<Rightarrow> nat option \<Rightarrow> (nat \<times> ASTNode) list \<Rightarrow>
   (nat option \<times> (nat \<times> ASTNode) list \<times> bool) result" where
  "linkNext p child tmp isElse directiveIf nx =
     (if NODE_ENV p \<noteq> ''production'' \<and> directiveIf = None
      then Err (ParseError (mustBeLead (dname tmp)) (node_loc child))
      else (case directiveIf of
              None \<Rightarrow> Err NullDereference
            | Some a \<Rightarrow> Ok (if isElse then None else Some (daddr tmp), (a, child) # nx, False)))"

definition linkChild ::
  "parser \<Rightarrow> ASTNode \<Rightarrow> nat option \<Rightarrow> (nat \<times> ASTNode) list \<Rightarrow>
   (nat option \<times> (nat \<times> ASTNode) list \<times> bool) result" where
  "linkChild p child directiveIf nx =
     (if isElementNode child then
        (let ds = directives child
         in case dIf ds of
              Some tmp \<Rightarrow> Ok (Some (daddr tmp), nx, True)
            | None \<Rightarrow>
                (case dElseIf ds of
                   Some tmp \<Rightarrow> linkNext p child tmp False directiveIf nx
                 | None \<Rightarrow>
                     (case dElse ds of
                        Some tmp \<Rightarrow> linkNext p child tmp True directiveIf nx
                      | None \<Rightarrow> Ok (directiveIf, nx, True))))
      else Ok (directiveIf, nx, True))"

definition parseJSXChild ::
  "parser \<Rightarrow> parseFn \<Rightarrow> scanFn \<Rightarrow> string \<Rightarrow> bool \<Rightarrow> pstate \<Rightarrow> (ASTNode \<times> pstate) result" where
  "parseJSXChild p parse scanJSX endTag isTextTag st =
     (if isExpect p (fst (delimiters p)) (index st) then
        (case parseJSXExpression p parse st of
           Err e \<Rightarrow> Err e
         | OutOfFuel \<Rightarrow> OutOfFuel
         | Ok (child, st1) \<Rightarrow> Ok (child, skipWhitespaceBetweenTags p endTag False st1))
      else if isTextTag then
        Ok (scanJSXText p [StopString endTag, StopString (fst (delimiters p))] st)
      else if isTagStart p (index st) then
        (case scanJSX st of
           Err e \<Rightarrow> Err e
         | OutOfFuel \<Rightarrow> OutOfFuel
         | Ok (child, st1) \<Rightarrow> Ok (child, skipWhitespaceBetweenTags p endTag True st1))
      else
        Ok (scanJSXText p
              [StopFunction (\<lambda>s. isExpect p endTag (index s) \<or> isTagStart p (index s)),
               StopString (fst (delimiters p))] st))"

fun parseJSXChildrenValue_raw ::
  "nat \<Rightarrow> parser \<Rightarrow> string \<Rightarrow> ASTNode list \<Rightarrow> pstate \<Rightarrow> (ASTNode list \<times> pstate) result" where
  "parseJSXChildrenValue_raw 0 p endTag chs st = OutOfFuel"
| "parseJSXChildrenValue_raw (Suc k) p endTag chs st =
     (if index st < length (source p) then
        (if isExpect p endTag (index st) then Ok (chs, st)
         else (let (child, st') = scanJSXText p [StopString endTag] st
               in parseJSXChildrenValue_raw k p endTag (chs @ [child]) st'))
      else Ok (chs, st))"

fun parseJSXChildrenValue_loop ::
  "nat \<Rightarrow> parser \<Rightarrow> parseFn \<Rightarrow> scanFn \<Rightarrow> string \<Rightarrow> bool \<Rightarrow> nat option \<Rightarrow> ASTNode list \<Rightarrow> pstate \<Rightarrow>
   (ASTNode list \<times> pstate) result" where
  "parseJSXChildrenValue_loop 0 p parse scanJSX endTag isTextTag directiveIf chs st = OutOfFuel"
| "parseJSXChildrenValue_loop (Suc k) p parse scanJSX endTag isTextTag directiveIf chs st =
     (if index st < length (source p) then
        (if isExpect p endTag (index st) then Ok (chs, st)
         else
           (case parseJSXChild p parse scanJSX endTag isTextTag st of
              Err e \<Rightarrow> Err e
            | OutOfFuel \<Rightarrow> OutOfFuel
            | Ok (child, st1) \<Rightarrow>
                (case linkChild p child directiveIf (nexts st1) of
                   Err e \<Rightarrow> Err e
                 | OutOfFuel \<Rightarrow> OutOfFuel
                 | Ok (directiveIf', nx, pushed) \<Rightarrow>
                     parseJSXChildrenValue_loop k p parse scanJSX endTag isTextTag directiveIf'
                       (if pushed then chs @ [child] else chs)
                       (st1\<lparr>nexts := nx\<rparr>))))
      else Ok (chs, st))"

text \<open>
  The children that the calls of \<open>parseJSXChild\<close> return during a run of the loop, in
  the order of the source, the last one included when the loop stops at it with an error.
  This is the same run as \<open>parseJSXChildrenValue_loop\<close>; it only keeps the parsed children,
  among them those that the loop does not push.
\<close>

fun parseJSXChildrenValue_parsed ::
  "nat \<Rightarrow> parser \<Rightarrow> parseFn \<Rightarrow> scanFn \<Rightarrow> string \<Rightarrow> bool \<Rightarrow> nat option \<Rightarrow> pstate \<Rightarrow> ASTNode list" where
  "parseJSXChildrenValue_parsed 0 p parse scanJSX endTag isTextTag directiveIf st = []"
| "parseJSXChildrenValue_parsed (Suc k) p parse scanJSX endTag isTextTag directiveIf st =
     (if index st < length (source p) \<and> \<not> isExpect p endTag (index st) then
        (case parseJSXChild p parse scanJSX endTag isTextTag st of
           Ok (child, st1) \<Rightarrow>
             child #
             (case linkChild p child directiveIf (nexts st1) of
                Ok (directiveIf', nx, pushed) \<Rightarrow>
                  parseJSXChildrenValue_parsed k p parse scanJSX endTag isTextTag directiveIf'
                    (st1\<lparr>nexts := nx\<rparr>)
              | _ \<Rightarrow> [])
         | _ \<Rightarrow> [])
      else [])"

definition parseJSXChildrenValue ::
  "nat \<Rightarrow> parser \<Rightarrow> parseFn \<Rightarrow> scanFn \<Rightarrow> string \<Rightarrow> ASTTypes \<Rightarrow> bool \<Rightarrow> bool \<Rightarrow> SourceLocation \<Rightarrow>
   pstate \<Rightarrow> (ASTNode list \<times> pstate) result" where
  "parseJSXChildrenValue fuel p parse scanJSX tag type raw isTextTag loc st =
     (let endTag = (case type of JSXBlock \<Rightarrow> ''</b:'' | JSXVdt \<Rightarrow> ''</t:'' | _ \<Rightarrow> ''</'') @ tag @ ''>''
      in case (if raw then parseJSXChildrenValue_raw fuel p endTag [] st
               else parseJSXChildrenValue_loop fuel p parse scanJSX endTag isTextTag None []
                      (skipWhitespaceBetweenTags p endTag True st)) of
           Err e \<Rightarrow> Err e
         | OutOfFuel \<Rightarrow> OutOfFuel
         | Ok (chs, st1) \<Rightarrow>
             (case parseJSXClosingTag p endTag loc st1 of
                Err e \<Rightarrow> Err e
              | OutOfFuel \<Rightarrow> OutOfFuel
              | Ok st2 \<Rightarrow> Ok (chs, st2)))"

definition parseJSXChildren ::
  "nat \<Rightarrow> parser \<Rightarrow> parseFn \<Rightarrow> scanFn \<Rightarrow> string \<Rightarrow> ASTTypes \<Rightarrow> ASTNode list \<Rightarrow> bool \<Rightarrow>
   SourceLocation \<Rightarrow> pstate \<Rightarrow> (ASTNode list \<times> ASTNode list \<times> pstate) result" where
  "parseJSXChildren fuel p parse scanJSX tag type attrs raw loc st =
     (if type = JSXCommonElement \<and> selfClosingTags p tag then
        (case expect p ''>'' None None (if pchar p st = Some CHR ''/'' then updateIndex 1 st else st) of
           Err e \<Rightarrow> Err e
         | OutOfFuel \<Rightarrow> OutOfFuel
         | Ok st1 \<Rightarrow> Ok ([], attrs, st1))
      else if pchar p st = Some CHR ''/'' then
        (case expect p ''>'' None None (updateIndex 1 st) of
           Err e \<Rightarrow> Err e
         | OutOfFuel \<Rightarrow> OutOfFuel
         | Ok st1 \<Rightarrow> Ok ([], attrs, st1))
      else
        (case expect p ''>'' None None st of
           Err e \<Rightarrow> Err e
         | OutOfFuel \<Rightarrow> OutOfFuel
         | Ok st1 \<Rightarrow>
             (if textTags p tag then
                (let attrLoc = getLocation st1
                 in case parseJSXChildrenValue fuel p parse scanJSX tag type raw True loc st1 of
                      Err e \<Rightarrow> Err e
                    | OutOfFuel \<Rightarrow> OutOfFuel
                    | Ok (chs, st2) \<Rightarrow>
                        Ok ([],
                            (if chs \<noteq> []
                             then attrs @
                                    [ASTAttribute (if tag = ''textarea'' then ''value'' else ''innerHTML'')
                                       (ASTStrings chs attrLoc) loc]
                             else attrs),
                            st2))
              else
                (case parseJSXChildrenValue fuel p parse scanJSX tag type raw False loc st1 of
                   Err e \<Rightarrow> Err e
                 | OutOfFuel \<Rightarrow> OutOfFuel
                 | Ok (chs, st2) \<Rightarrow> Ok (chs, attrs, st2)))))"

subsection \<open>Elements\<close>

definition parseJSXElement ::
  "nat \<Rightarrow> parser \<Rightarrow> parseFn \<Rightarrow> scanFn \<Rightarrow> pstate \<Rightarrow> (ASTNode \<times> pstate) result" where
  "parseJSXElement fuel p parse scanJSX st =
     (let flag = charCode p st; loc = getLocation st; start = index st
      in case (if flag \<noteq> None \<and> 65 \<le> the flag \<and> the flag \<le> 90 then Ok (JSXComponent, start, st)
               else if charCodeAt p (int (index st) + 1) = Some 58 then
                 (if flag = Some 116 then Ok (JSXVdt, start + 2, updateIndex 2 st)
                  else if flag = Some 98 then Ok (JSXBlock, start + 2, updateIndex 2 st)
                  else error (''Unknown directive '' @
                               (case pchar p st of None \<Rightarrow> [] | Some c \<Rightarrow> [c]) @ '':'') None st)
               else Ok (JSXCommonElement, start, st)) of
           Err e \<Rightarrow> Err e
         | OutOfFuel \<Rightarrow> OutOfFuel
         | Ok (type, start', st1) \<Rightarrow>
             (let st2 = scanJSXIdentifier p st1;
                  value = getValue p start' st2
              in case parseJSXAttribute fuel p parse value type st2 of
                   Err e \<Rightarrow> Err e
                 | OutOfFuel \<Rightarrow> OutOfFuel
                 | Ok (a, st3) \<Rightarrow>
                     (case parseJSXChildren fuel p parse scanJSX value type (attributes a)
                             (hasVRaw a) loc st3 of
                        Err e \<Rightarrow> Err e
                      | OutOfFuel \<Rightarrow> OutOfFuel
                      | Ok (chs, attrs', st4) \<Rightarrow>
                          (case (if NODE_ENV p \<noteq> ''production''
                                 then validateModel p value type attrs' (source p) else None) of
                             Some e \<Rightarrow> Err e
                           | None \<Rightarrow>
                               Ok (ASTElement type value attrs' (adirectives a) chs (keyed a) loc,
                                   st4)))))"

definition scanJSX_body :: "parser \<Rightarrow> scanFn \<Rightarrow> pstate \<Rightarrow> (ASTNode \<times> pstate) result" where
  "scanJSX_body p parseElement st =
     (case expect p ''<'' None None st of
        Err e \<Rightarrow> Err e
      | OutOfFuel \<Rightarrow> OutOfFuel
      | Ok st1 \<Rightarrow>
          if isExpect p ''!--'' (index st1) then parseJSXComment p st1 else parseElement st1)"

subsection \<open>The top-level routine\<close>

definition advance ::
  "parser \<Rightarrow> scanFn \<Rightarrow> int \<Rightarrow> bool \<Rightarrow> int \<Rightarrow> pstate \<Rightarrow> (ASTNode \<times> int \<times> pstate) result" where
  "advance p scanJSX braces isRoot spaces st =
     (let ch = pchar p st
      in if isRoot \<and> isJSImport p st then
           (case scanJSImport p st of
              Err e \<Rightarrow> Err e | OutOfFuel \<Rightarrow> OutOfFuel | Ok (n, st') \<Rightarrow> Ok (n, braces, st'))
         else if ch \<noteq> Some CHR ''<'' then scanJS p braces isRoot spaces st
         else (case scanJSX st of
                 Err e \<Rightarrow> Err e | OutOfFuel \<Rightarrow> OutOfFuel | Ok (n, st') \<Rightarrow> Ok (n, braces, st')))"

fun parse_loop ::
  "nat \<Rightarrow> parser \<Rightarrow> scanFn \<Rightarrow> bool \<Rightarrow> int \<Rightarrow> ASTNode list \<Rightarrow> int \<Rightarrow> pstate \<Rightarrow>
   (ASTNode list \<times> pstate) result" where
  "parse_loop 0 p scanJSX isRoot spaces nodes braces st = OutOfFuel"
| "parse_loop (Suc k) p scanJSX isRoot spaces nodes braces st =
     (if index st < length (source p) \<and> 0 \<le> braces then
        (case advance p scanJSX braces isRoot spaces st of
           Err e \<Rightarrow> Err e
         | OutOfFuel \<Rightarrow> OutOfFuel
         | Ok (n, braces', st') \<Rightarrow> parse_loop k p scanJSX isRoot spaces (nodes @ [n]) braces' st')
      else Ok (nodes, st))"

text \<open>
  Closing the recursion. The fuel bounds the nesting of elements and expressions and the
  number of passes through each loop; a run that needs more is \<open>OutOfFuel\<close>.
\<close>

fun parse :: "nat \<Rightarrow> parser \<Rightarrow> bool \<Rightarrow> int \<Rightarrow> pstate \<Rightarrow> (ASTNode list \<times> pstate) result"
and scanJSX :: "nat \<Rightarrow> parser \<Rightarrow> pstate \<Rightarrow> (ASTNode \<times> pstate) result"
where
  "parse 0 p isRoot spaces st = OutOfFuel"
| "parse (Suc n) p isRoot spaces st = parse_loop n p (scanJSX n p) isRoot spaces [] 0 st"
| "scanJSX 0 p st = OutOfFuel"
| "scanJSX (Suc n) p st =
     scanJSX_body p (parseJSXElement n p (parse n p False) (scanJSX n p)) st"

definition initialState :: pstate where
  "initialState = \<lparr>index = 0, line = 1, column = 1, fresh = 0, nexts = []\<rparr>"

definition Parser :: "nat \<Rightarrow> parser \<Rightarrow> string \<Rightarrow> (ASTNode list \<times> pstate) result" where
  "Parser fuel p src = parse fuel (p\<lparr>source := trimRight p src\<rparr>) True 0 initialState"

subsection \<open>An instance of the helpers for the examples\<close>

definition ex_isWhiteSpace :: "nat \<Rightarrow> bool" where
  "ex_isWhiteSpace c = ((9 \<le> c \<and> c \<le> 13) \<or> c = 32 \<or> c = 160)"

definition ex_isJSIdentifierPart :: "nat \<Rightarrow> bool" where
  "ex_isJSIdentifierPart c =
     (c = 95 \<or> c = 36 \<or> (65 \<le> c \<and> c \<le> 90) \<or> (97 \<le> c \<and> c \<le> 122) \<or> (48 \<le> c \<and> c \<le> 57))"

definition ex_parser :: parser where
  "ex_parser =
     \<lparr>source = [],
      delimiters = (''{'', ''}''),
      NODE_ENV = ''development'',
      trimRight = (\<lambda>s. rev (dropWhile (\<lambda>c. ex_isWhiteSpace (of_char c)) (rev s))),
      isWhiteSpace = ex_isWhiteSpace,
      isWhiteSpaceExceptLinebreak = (\<lambda>c. ex_isWhiteSpace c \<and> c \<noteq> 10 \<and> c \<noteq> 13),
      isJSIdentifierPart = ex_isJSIdentifierPart,
      isJSXIdentifierPart = (\<lambda>c. ex_isJSIdentifierPart c \<or> c = 58 \<or> c = 45 \<or> c = 46),
      selfClosingTags = (\<lambda>t. t \<in> set [''area'', ''base'', ''br'', ''col'', ''embed'', ''hr'', ''img'',
                                        ''input'', ''link'', ''meta'', ''param'', ''source'', ''track'', ''wbr'']),
      textTags = (\<lambda>t. t \<in> set [''style'', ''script'', ''textarea'']),
      directivesMap = (\<lambda>n. n \<in> set [''v-if'', ''v-else-if'', ''v-else'', ''v-for'', ''v-for-value'',
                                      ''v-for-key'', ''v-model'', ''v-raw'']),
      validateDirectiveValue = (\<lambda>name vt tag ty src loc. None),
      validateAttributeForBlock = (\<lambda>tag name v loc src. None),
      validateModel = (\<lambda>tag ty as src. None)\<rparr>"

subsection \<open>Example sources\<close>

definition ex_spread :: parser where
  "ex_spread = ex_parser\<lparr>source := ''<div {a} key={b}></div>''\<rparr>"

definition ex_st4 :: pstate where
  "ex_st4 = \<lparr>index = 4, line = 1, column = 5, fresh = 0, nexts = []\<rparr>"

definition ex_p_if :: ASTNode where
  "ex_p_if =
     ASTElement JSXCommonElement ''p'' []
       (Directives
          (Some (ASTDirectiveIf ''v-if''
                   (ASTExpression JSXExpression
                      [ASTJS [''a''] 0 \<lparr>loc_line = 1, loc_column = 15\<rparr>]
                      \<lparr>loc_line = 1, loc_column = 14\<rparr>)
                   0 \<lparr>loc_line = 1, loc_column = 9\<rparr>))
          None None [])
       [ASTText ''A'' \<lparr>loc_line = 1, loc_column = 18\<rparr>] False
       \<lparr>loc_line = 1, loc_column = 7\<rparr>"

definition ex_p_else :: ASTNode where
  "ex_p_else =
     ASTElement JSXCommonElement ''p'' []
       (Directives None None
          (Some (ASTDirectiveIf ''v-else''
                   (ASTNone \<lparr>loc_line = 1, loc_column = 32\<rparr>) 1
                   \<lparr>loc_line = 1, loc_column = 26\<rparr>))
          [])
       [ASTText ''B'' \<lparr>loc_line = 1, loc_column = 33\<rparr>] False
       \<lparr>loc_line = 1, loc_column = 24\<rparr>"

definition ex_span :: ASTNode where
  "ex_span =
     ASTElement JSXCommonElement ''span'' [] (Directives None None None []) [] False
       \<lparr>loc_line = 1, loc_column = 24\<rparr>"

definition ex_src_if_else :: string where
  "ex_src_if_else = ''<div><p v-if={a}>A</p><p v-else>B</p></div>''"

definition ex_src_if_both :: string where
  "ex_src_if_both = ''<div><p v-if={a}>A</p><p v-if={b} v-else-if={c}>B</p></div>''"

definition ex_src_if_span_else :: string where
  "ex_src_if_span_else = ''<div><p v-if={a}>A</p><span></span><p v-else>B</p></div>''"

definition ex_src_else :: string where
  "ex_src_else = ''<div><p v-else>B</p></div>''"

definition ex_p_both :: ASTNode where
  "ex_p_both =
     ASTElement JSXCommonElement ''p'' []
       (Directives
          (Some (ASTDirectiveIf ''v-if''
                   (ASTExpression JSXExpression
                      [ASTJS [''b''] 0 \<lparr>loc_line = 1, loc_column = 32\<rparr>]
                      \<lparr>loc_line = 1, loc_column = 31\<rparr>)
                   1 \<lparr>loc_line = 1, loc_column = 26\<rparr>))
          (Some (ASTDirectiveIf ''v-else-if''
                   (ASTExpression JSXExpression
                      [ASTJS [''c''] 0 \<lparr>loc_line = 1, loc_column = 46\<rparr>]
                      \<lparr>loc_line = 1, loc_column = 45\<rparr>)
                   2 \<lparr>loc_line = 1, loc_column = 35\<rparr>))
          None [])
       [ASTText ''B'' \<lparr>loc_line = 1, loc_column = 49\<rparr>] False
       \<lparr>loc_line = 1, loc_column = 24\<rparr>"

definition ex_chain :: parser where
  "ex_chain = ex_parser\<lparr>source := ''<div><p v-if={a}>A</p><span></span><p v-else>B</p></div>''\<rparr>"

definition ex_orphan :: parser where
  "ex_orphan = ex_parser\<lparr>source := ''<div><p v-if={a}>A</p><p v-else>B</p><p v-else-if={c}>C</p></div>''\<rparr>"

definition ex_st_children :: pstate where
  "ex_st_children = \<lparr>index = 5, line = 1, column = 6, fresh = 0, nexts = []\<rparr>"

definition ex_p_else_far :: ASTNode where
  "ex_p_else_far =
     ASTElement JSXCommonElement ''p'' []
       (Directives None None
          (Some (ASTDirectiveIf ''v-else''
                   (ASTNone \<lparr>loc_line = 1, loc_column = 45\<rparr>) 1
                   \<lparr>loc_line = 1, loc_column = 39\<rparr>))
          [])
       [ASTText ''B'' \<lparr>loc_line = 1, loc_column = 46\<rparr>] False
       \<lparr>loc_line = 1, loc_column = 37\<rparr>"

definition ex_p_elif :: ASTNode where
  "ex_p_elif =
     ASTElement JSXCommonElement ''p'' []
       (Directives None
          (Some (ASTDirectiveIf ''v-else-if''
                   (ASTExpression JSXExpression
                      [ASTJS [''c''] 0 \<lparr>loc_line = 1, loc_column = 52\<rparr>]
                      \<lparr>loc_line = 1, loc_column = 51\<rparr>)
                   2 \<lparr>loc_line = 1, loc_column = 41\<rparr>))
          None [])
       [ASTText ''C'' \<lparr>loc_line = 1, loc_column = 55\<rparr>] False
       \<lparr>loc_line = 1, loc_column = 39\<rparr>"






definition ex_validateDirectiveValue ::
  "string \<Rightarrow> ASTTypes \<Rightarrow> string \<Rightarrow> ASTTypes \<Rightarrow> string \<Rightarrow> SourceLocation \<Rightarrow> perror option" where
  "ex_validateDirectiveValue name valueType tag tagType src loc =
     (if name = ''v-if'' \<and> valueType \<noteq> JSXExpression
      then Some (ParseError ''v-if takes an expression'' loc) else None)"

definition ex_strict :: parser where
  "ex_strict = ex_parser\<lparr>NODE_ENV := ''production'', validateDirectiveValue := ex_validateDirectiveValue\<rparr>"

definition ex_src_if_string :: string where
  "ex_src_if_string = ''<div v-if='x'></div>''"

subsection \<open>Notions used to state the properties of the parser\<close>

text \<open>
  An element carries \<open>if\<close>; or it carries \<open>else-if\<close> and no \<open>if\<close>; or it carries
  \<open>else\<close> and neither of the two: this is the order in which the loop looks at the
  directives of a child. \<open>branch\<close> is the directive node the loop takes, \<open>addr\<close> its
  address, and \<open>nextOf\<close> the \<open>next\<close> field of that node in a store.
\<close>

definition carriesIf :: "ASTNode \<Rightarrow> bool" where
  "carriesIf e = (isElementNode e \<and> dIf (directives e) \<noteq> None)"

definition carriesElseIf :: "ASTNode \<Rightarrow> bool" where
  "carriesElseIf e = (isElementNode e \<and> dIf (directives e) = None \<and> dElseIf (directives e) \<noteq> None)"

definition carriesElse :: "ASTNode \<Rightarrow> bool" where
  "carriesElse e =
     (isElementNode e \<and> dIf (directives e) = None \<and> dElseIf (directives e) = None \<and>
      dElse (directives e) \<noteq> None)"

definition chained :: "ASTNode \<Rightarrow> bool" where
  "chained e = (carriesElseIf e \<or> carriesElse e)"

definition branch :: "ASTNode \<Rightarrow> ASTDirectiveIf option" where
  "branch e =
     (if \<not> isElementNode e then None
      else if dIf (directives e) \<noteq> None then dIf (directives e)
      else if dElseIf (directives e) \<noteq> None then dElseIf (directives e)
      else dElse (directives e))"

definition addr :: "ASTNode \<Rightarrow> nat" where
  "addr e = (case branch e of None \<Rightarrow> 0 | Some d \<Rightarrow> daddr d)"

definition nextOf :: "(nat \<times> ASTNode) list \<Rightarrow> ASTNode \<Rightarrow> ASTNode option" where
  "nextOf nx e = map_of nx (addr e)"

text \<open>
  Whether a chain is open after a list of siblings: the most recent sibling that carries
  a conditional directive carries \<open>if\<close> or \<open>else-if\<close>.
\<close>

definition chainOpen_step :: "ASTNode \<Rightarrow> bool \<Rightarrow> bool" where
  "chainOpen_step c b =
     (if carriesIf c \<or> carriesElseIf c then True else if carriesElse c then False else b)"

definition chainOpen :: "ASTNode list \<Rightarrow> bool" where
  "chainOpen cs = fold chainOpen_step cs False"

fun attributeName :: "ASTNode \<Rightarrow> string option" where
  "attributeName (ASTAttribute n v l) = Some n"
| "attributeName _ = None"

definition namesKey :: "attrs \<Rightarrow> bool" where
  "namesKey a = (Some ''key'' \<in> attributeName ` set (attributes a) \<or>
                 ''key'' \<in> fst ` set (dCommon (adirectives a)))"

text \<open>
  Allocation of directive nodes. \<open>heap\<close> is the part of the state that holds the
  directive objects: the next free address and the \<open>next\<close> fields. A step from \<open>st\<close> to
  \<open>st'\<close> allocates above \<open>b\<close> when it only adds \<open>next\<close> entries, all of them for addresses
  from \<open>b\<close> on, and takes addresses from the counter. \<open>ownAddrs\<close> are the addresses of the
  conditional directive nodes of an element. \<open>parseOk\<close> and \<open>scanOk\<close> say of a callee that
  it allocates above the counter it finds and returns elements whose directive nodes it
  has allocated itself.
\<close>

definition heap :: "pstate \<Rightarrow> nat \<times> (nat \<times> ASTNode) list" where
  "heap st = (fresh st, nexts st)"

definition allocates :: "nat \<Rightarrow> pstate \<Rightarrow> pstate \<Rightarrow> bool" where
  "allocates b st st' =
     (fresh st \<le> fresh st' \<and> (\<exists>ws. nexts st' = ws @ nexts st \<and> (\<forall>a\<in>fst ` set ws. b \<le> a)))"

definition dirAddrs :: "Directives \<Rightarrow> nat set" where
  "dirAddrs ds = daddr ` (set_option (dIf ds) \<union> set_option (dElseIf ds) \<union> set_option (dElse ds))"

definition ownAddrs :: "ASTNode \<Rightarrow> nat set" where
  "ownAddrs c = dirAddrs (directives c)"

definition parseOk :: "parseFn \<Rightarrow> bool" where
  "parseOk pf = (\<forall>sp st r st'. pf sp st = Ok (r, st') \<longrightarrow> allocates (fresh st) st st')"

definition scanOk :: "scanFn \<Rightarrow> bool" where
  "scanOk sf =
     (\<forall>st c st'. sf st = Ok (c, st') \<longrightarrow>
        allocates (fresh st) st st' \<and> (\<forall>a\<in>ownAddrs c. fresh st \<le> a \<and> a < fresh st'))"


section \<open>Verified properties\<close>

lemmas Types_defs =
  Types_Text_def Types_CommonElement_def Types_ComponentClass_def Types_ComponentFunction_def
  Types_HtmlComment_def Types_InputElement_def Types_SelectElement_def Types_TextareaElement_def
  Types_SvgElement_def Types_UnescapeText_def Types_Void_def Types_Fragment_def
  Types_FormElement_def Types_Element_def

lemmas ChildrenTypes_defs =
  ChildrenTypes_UnknownChildren_def ChildrenTypes_HasInvalidChildren_def
  ChildrenTypes_HasVNodeChildren_def ChildrenTypes_HasNonKeyedChildren_def
  ChildrenTypes_HasKeyedChildren_def ChildrenTypes_HasTextChildren_def
  ChildrenTypes_MultipleChildren_def

lemmas ex_defs =
  w0_def ex_text_def ex_instance_def ex_comp_def ex_div_def ex_button_def ex_fragment_def ex_de_def

subsection \<open>Unfolding lemmas\<close>

lemma unmount_elem:
  "ty AND Types_Element \<noteq> 0 \<Longrightarrow> unmount de (VNode d ty cty ps ch r) w =
     (if cty AND ChildrenTypes_MultipleChildren \<noteq> 0 then
              (case ch of
                 ChildVNodes vs \<Rightarrow> unmountAllChildren de vs (elemProps de ps d r w)
               | ChildNone \<Rightarrow> Inl TypeError
               | _ \<Rightarrow> Inr (elemProps de ps d r w))
            else if cty = ChildrenTypes_HasVNodeChildren then
              (case ch of
                 ChildVNode c \<Rightarrow> unmount de c (elemProps de ps d r w)
               | ChildNone \<Rightarrow> Inl TypeError
               | _ \<Rightarrow> Inr (elemProps de ps d r w))
            else Inr (elemProps de ps d r w))"
  by (cases ps; cases ch) (simp_all add: elemProps_def Let_def)

lemma unmount_nonelem:
  "ty AND Types_Element = 0 \<Longrightarrow> unmount de (VNode d ty cty ps ch r) w =
     (if truthy_children ch then
        (if ty AND Types_ComponentClass \<noteq> 0 then
           (case ch of
              ChildComponent c \<Rightarrow>
                (case c_unmount de c w of
                   Inl e \<Rightarrow> Inl e
                 | Inr w' \<Rightarrow> Inr (emit (UnmountRef r) w'))
            | _ \<Rightarrow> Inl TypeError)
         else Inr w)
      else Inr w)"
  by simp

lemma c_unmount_Some:
  "c_unmount de (Component i (Some v) hb hu) w =
     (case unmount de v (c_pre i hb w) of Inl e \<Rightarrow> Inl e | Inr w2 \<Rightarrow> Inr (c_post i hu w2))"
  by (simp add: c_pre_def c_post_def Let_def split: sum.splits)

lemma elemProps_w2:
  "(case ps of None \<Rightarrow> emit (UnmountRef r) w | Some pl \<Rightarrow> unmountProps de pl d (emit (UnmountRef r) w))
     = elemProps de ps d r w"
  by (simp add: elemProps_def)

subsection \<open>A generic preservation principle\<close>

text \<open>Any reflexive, transitive relation on worlds that every primitive step respects is respected by unmount.\<close>

lemma unmount_preserves_all:
  assumes rf: "\<And>w. R w w"
    and tr: "\<And>w w1 w2. R w w1 \<Longrightarrow> R w1 w2 \<Longrightarrow> R w w2"
    and ep: "\<And>de ps d r w. R w (elemProps de ps d r w)"
    and rref: "\<And>r w. R w (emit (UnmountRef r) w)"
    and pre: "\<And>i hb w. R w (c_pre i hb w)"
    and post: "\<And>i hu w. R w (c_post i hu w)"
  shows "(\<forall>w'. unmount de v w = Inr w' \<longrightarrow> R w w')"
    and "(\<forall>w'. unmountAllChildren de vs w = Inr w' \<longrightarrow> R w w')"
    and "(\<forall>w'. c_unmount de c w = Inr w' \<longrightarrow> R w w')"
proof (induction de v w and de vs w and de c w rule: unmount_unmountAllChildren_c_unmount.induct)
  case (1 de d ty cty ps ch r w)
  show ?case
  proof (cases "ty AND Types_Element \<noteq> 0")
    case True
    note ih1 = "1.IH"(1)[OF True refl refl, unfolded elemProps_w2]
    note ih2 = "1.IH"(2)[OF True refl refl, unfolded elemProps_w2]
    note e = ep[of w de ps d r]
    show ?thesis
      using True ih1 ih2 e
      by (cases ch) (auto simp: unmount_elem simp del: unmount.simps split: if_splits intro: tr)
  next
    case False
    note ih3 = "1.IH"(3)[OF False]
    show ?thesis
      using False ih3
      by (cases ch) (auto simp: unmount_nonelem rf simp del: unmount.simps split: if_splits sum.splits intro: tr[OF _ rref])
  qed
next
  case (2 de w)
  then show ?case by (simp add: rf)
next
  case (3 de v vs w)
  then show ?case by (auto split: sum.splits intro: tr)
next
  case (4 de i li hb hu w)
  show ?case
  proof (cases li)
    case None
    then show ?thesis by simp
  next
    case (Some v)
    show ?thesis
    proof (intro allI impI)
      fix w' assume a: "c_unmount de (Component i li hb hu) w = Inr w'"
      from a[unfolded Some c_unmount_Some] obtain w2
        where u: "unmount de v (c_pre i hb w) = Inr w2" and w': "w' = c_post i hu w2"
        by (auto split: sum.splits)
      from "4.IH"[OF refl Some] u have "R (c_pre i hb w) w2" by (simp add: c_pre_def)
      then show "R w w'" unfolding w'
        by (blast intro: tr pre post)
    qed
  qed
qed

subsection \<open>unmount leaves the DOM alone\<close>

lemma sameDom_refl: "sameDom w w"
  by (simp add: sameDom_def)

lemma sameDom_trans: "sameDom w w1 \<Longrightarrow> sameDom w1 w2 \<Longrightarrow> sameDom w w2"
  by (simp add: sameDom_def)

lemma sameDom_emit: "\<not> detaches e \<Longrightarrow> sameDom w (emit e w)"
  by (simp add: sameDom_def emit_def)

lemma unmountProps_sameDom: "sameDom w (unmountProps de ps d w)"
proof (induction de ps d w rule: unmountProps.induct)
  case (1 de d w)
  then show ?case by (simp add: sameDom_refl)
next
  case (2 de p v ps d w)
  have "sameDom w (if de p then emit (UnmountDelegatedEvent p d) w else w)"
    by (simp add: sameDom_refl sameDom_emit)
  with 2 show ?case by (auto intro: sameDom_trans)
qed

lemma elemProps_sameDom: "sameDom w (elemProps de ps d r w)"
  by (cases ps)
     (auto simp: elemProps_def intro: sameDom_trans[OF sameDom_emit unmountProps_sameDom] sameDom_emit)

lemma c_pre_sameDom: "sameDom w (c_pre i hb w)"
  by (simp add: c_pre_def sameDom_refl sameDom_emit)

lemma c_post_sameDom: "sameDom w (c_post i hu w)"
  by (simp add: c_post_def sameDom_def emit_def Let_def)

lemma unmount_sameDom:
  "unmount de v w = Inr w' \<Longrightarrow> sameDom w w'"
  using unmount_preserves_all(1)[where R = sameDom and de = de and v = v and w = w,
      OF sameDom_refl sameDom_trans elemProps_sameDom sameDom_emit c_pre_sameDom c_post_sameDom]
  by simp

lemma unmountAllChildren_sameDom:
  "unmountAllChildren de vs w = Inr w' \<Longrightarrow> sameDom w w'"
  using unmount_preserves_all(2)[where R = sameDom and de = de and vs = vs and w = w,
      OF sameDom_refl sameDom_trans elemProps_sameDom sameDom_emit c_pre_sameDom c_post_sameDom]
  by simp

text \<open>
  Claim C10. \<open>unmount\<close> never detaches a DOM node: the detaching events of the trace
  (calls of \<open>removeVNodeDom\<close>, writes of \<open>textContent\<close>) are the same before and after
  it. \<open>remove\<close> adds exactly one, the call \<open>removeVNodeDom(vNode, parentDom)\<close>, after
  the unmount; \<open>removeAllChildren\<close> adds exactly one, after unmounting all children:
  \<open>removeVNodeDom(vNode, dom)\<close> for a fragment and the clearing of \<open>dom\<close> otherwise.
\<close>

theorem unmount_never_detaches:
  "(unmount de v w = Inr w1 \<longrightarrow> sameDom w w1) \<and>
   (remove de v parentDom w = Inr w2 \<longrightarrow>
      filter detaches (trace w2) = filter detaches (trace w) @ [RemoveVNodeDom v parentDom]) \<and>
   (removeAllChildren de cs d vNode w = Inr w3 \<longrightarrow>
      filter detaches (trace w3) =
      filter detaches (trace w) @
        [if vtype vNode AND Types_Fragment \<noteq> 0 then RemoveVNodeDom vNode d else SetTextContent d []])"
proof (intro conjI impI)
  assume "unmount de v w = Inr w1"
  then show "sameDom w w1" by (rule unmount_sameDom)
next
  assume a: "remove de v parentDom w = Inr w2"
  then obtain w' where u: "unmount de v w = Inr w'" and w2: "w2 = emit (RemoveVNodeDom v parentDom) w'"
    by (auto simp: remove_def split: sum.splits)
  from unmount_sameDom[OF u] show
    "filter detaches (trace w2) = filter detaches (trace w) @ [RemoveVNodeDom v parentDom]"
    by (simp add: w2 emit_def sameDom_def)
next
  assume a: "removeAllChildren de cs d vNode w = Inr w3"
  then obtain w' where u: "unmountAllChildren de cs w = Inr w'"
    and w3: "w3 = (if vtype vNode AND Types_Fragment \<noteq> 0
               then emit (RemoveVNodeDom vNode d) w' else clearDom d w')"
    by (auto simp: removeAllChildren_def split: sum.splits)
  from unmountAllChildren_sameDom[OF u] show
    "filter detaches (trace w3) =
      filter detaches (trace w) @
        [if vtype vNode AND Types_Fragment \<noteq> 0 then RemoveVNodeDom vNode d else SetTextContent d []]"
    by (simp add: w3 emit_def clearDom_def sameDom_def)
qed

lemma ex_unmount_div:
  "unmount ex_de ex_div w0 =
     Inr \<lparr>trace = [UnmountRef None, UnmountDelegatedEvent ''ev-click'' (Some 1),
                   HookBeforeUnmount 7 False, EventOff 7 True, HookUnmounted 7 True,
                   UnmountRef (Some 5)],
          instances = (instances w0)(7 := (instances w0 7)\<lparr>unmounted := True\<rparr>)\<rparr>"
  by (simp add: ex_defs emit_def Types_defs ChildrenTypes_defs)

theorem unmount_never_detaches_witness:
  "unmount ex_de ex_div w0 = Inr (projr (unmount ex_de ex_div w0)) \<and>
   sameDom w0 (projr (unmount ex_de ex_div w0)) \<and>
   remove ex_de ex_div 9 w0 = Inr (projr (remove ex_de ex_div 9 w0)) \<and>
   filter detaches (trace (projr (remove ex_de ex_div 9 w0))) = [RemoveVNodeDom ex_div 9] \<and>
   removeAllChildren ex_de [ex_div] 9 ex_fragment w0 =
     Inr (projr (removeAllChildren ex_de [ex_div] 9 ex_fragment w0)) \<and>
   filter detaches (trace (projr (removeAllChildren ex_de [ex_div] 9 ex_fragment w0))) =
     [RemoveVNodeDom ex_fragment 9]"
proof -
  have h1: "unmount ex_de ex_div w0 = Inr (projr (unmount ex_de ex_div w0))"
    by (simp add: ex_unmount_div)
  have h2: "remove ex_de ex_div 9 w0 = Inr (projr (remove ex_de ex_div 9 w0))"
    by (simp add: remove_def ex_unmount_div)
  have h3: "removeAllChildren ex_de [ex_div] 9 ex_fragment w0 =
     Inr (projr (removeAllChildren ex_de [ex_div] 9 ex_fragment w0))"
    by (simp add: removeAllChildren_def ex_unmount_div)
  have f: "vtype ex_fragment AND Types_Fragment \<noteq> 0"
    by (simp add: ex_fragment_def Types_defs)
  have t: "trace w0 = []" by (simp add: w0_def)
  from unmount_never_detaches[of ex_de ex_div w0 "projr (unmount ex_de ex_div w0)" 9
      "projr (remove ex_de ex_div 9 w0)" "[ex_div]" 9 ex_fragment
      "projr (removeAllChildren ex_de [ex_div] 9 ex_fragment w0)"] h1 h2 h3 f t
  show ?thesis by simp
qed

subsection \<open>unmount unregisters delegated events\<close>

lemma grows_refl: "grows w w"
  by (simp add: grows_def)

lemma grows_trans: "grows w w1 \<Longrightarrow> grows w1 w2 \<Longrightarrow> grows w w2"
  by (auto simp: grows_def)

lemma grows_emit: "grows w (emit e w)"
  by (auto simp: grows_def emit_def)

lemma unmountProps_grows: "grows w (unmountProps de ps d w)"
proof (induction de ps d w rule: unmountProps.induct)
  case (1 de d w)
  then show ?case by (simp add: grows_refl)
next
  case (2 de p v ps d w)
  have "grows w (if de p then emit (UnmountDelegatedEvent p d) w else w)"
    by (simp add: grows_refl grows_emit)
  with 2 show ?case by (auto intro: grows_trans)
qed

lemma elemProps_grows: "grows w (elemProps de ps d r w)"
  by (cases ps) (auto simp: elemProps_def intro: grows_trans[OF grows_emit unmountProps_grows] grows_emit)

lemma c_pre_grows: "grows w (c_pre i hb w)"
  by (simp add: c_pre_def grows_refl grows_emit)

lemma c_post_grows: "grows w (c_post i hu w)"
  by (auto simp: c_post_def grows_def emit_def Let_def)

lemmas unmount_grows_all =
  unmount_preserves_all[where R = grows, OF grows_refl grows_trans elemProps_grows grows_emit c_pre_grows c_post_grows]

lemma unmount_grows: "unmount de v w = Inr w' \<Longrightarrow> grows w w'"
  using unmount_grows_all(1)[where de = de and v = v and w = w] by simp

lemma unmountAllChildren_grows: "unmountAllChildren de vs w = Inr w' \<Longrightarrow> grows w w'"
  using unmount_grows_all(2)[where de = de and vs = vs and w = w] by simp

lemma c_unmount_grows: "c_unmount de c w = Inr w' \<Longrightarrow> grows w w'"
  using unmount_grows_all(3)[where de = de and c = c and w = w] by simp

lemma unmountProps_call:
  "(q, x) \<in> set pl \<Longrightarrow> de q \<Longrightarrow> UnmountDelegatedEvent q d \<in> set (trace (unmountProps de pl d w))"
proof (induction de pl d w rule: unmountProps.induct)
  case (1 de d w)
  then show ?case by simp
next
  case (2 de p v ps d w)
  let ?w1 = "if de p then emit (UnmountDelegatedEvent p d) w else w"
  show ?case
  proof (cases "(q, x) \<in> set ps")
    case True
    with 2 show ?thesis by simp
  next
    case False
    with "2.prems" have qp: "q = p" by auto
    have "grows ?w1 (unmountProps de ps d ?w1)" by (rule unmountProps_grows)
    moreover have "UnmountDelegatedEvent q d \<in> set (trace ?w1)"
      using qp "2.prems" by (simp add: emit_def)
    ultimately show ?thesis by (auto simp: grows_def)
  qed
qed

lemma unmountProps_calls:
  "set (map (\<lambda>p. UnmountDelegatedEvent p d) (filter de (map fst pl))) \<subseteq> set (trace (unmountProps de pl d w))"
  using unmountProps_call[of _ _ pl de d w] by auto

lemma elemProps_calls:
  "ty AND Types_Element \<noteq> 0 \<Longrightarrow>
   set (delegatedCalls de (VNode d ty cty ps ch r)) \<subseteq> set (trace (elemProps de ps d r w))"
  using unmountProps_calls[of d de _ "emit (UnmountRef r) w"]
  by (cases ps) (auto simp: delegatedCalls_def elemProps_def)

lemma nonelem_calls: "ty AND Types_Element = 0 \<Longrightarrow> delegatedCalls de (VNode d ty cty ps ch r) = []"
  by (simp add: delegatedCalls_def)

lemma covers_grows: "covers de ns w \<Longrightarrow> grows w w' \<Longrightarrow> covers de ns w'"
  by (auto simp: covers_def grows_def)

lemma covers_append: "covers de (xs @ ys) w = (covers de xs w \<and> covers de ys w)"
  by (auto simp: covers_def)

lemma unmount_covers_all:
  "shaped v \<longrightarrow> (\<exists>w'. unmount de v w = Inr w' \<and> covers de (subnodes v) w')"
  "shaped_list vs \<longrightarrow> (\<exists>w'. unmountAllChildren de vs w = Inr w' \<and> covers de (subnodes_list vs) w')"
  "shaped_component c \<longrightarrow> (\<exists>w'. c_unmount de c w = Inr w' \<and> covers de (subnodes_component c) w')"
proof (induction de v w and de vs w and de c w rule: unmount_unmountAllChildren_c_unmount.induct)
  case (1 de d ty cty ps ch r w)
  let ?v = "VNode d ty cty ps ch r"
  show ?case
  proof (cases "ty AND Types_Element \<noteq> 0")
    case True
    note ih1 = "1.IH"(1)[OF True refl refl, unfolded elemProps_w2]
    note ih2 = "1.IH"(2)[OF True refl refl, unfolded elemProps_w2]
    have self: "covers de [?v] (elemProps de ps d r w)"
      using elemProps_calls[OF True, of de d cty ps ch r w] by (simp add: covers_def)
    show ?thesis
    proof (intro impI)
      assume sh: "shaped ?v"
      show "\<exists>w'. unmount de ?v w = Inr w' \<and> covers de (subnodes ?v) w'"
      proof (cases ch)
        case ChildNone
        with sh True self show ?thesis by (auto simp: unmount_elem simp del: unmount.simps)
      next
        case (ChildText x2)
        with sh True self show ?thesis by (auto simp: unmount_elem simp del: unmount.simps)
      next
        case (ChildNumber x3)
        with sh True self show ?thesis by (auto simp: unmount_elem simp del: unmount.simps)
      next
        case (ChildVNode c)
        with sh True have cty: "cty AND ChildrenTypes_MultipleChildren = 0" "cty = ChildrenTypes_HasVNodeChildren" and shc: "shaped c"
          by auto
        from ih2[OF _ cty(2) ChildVNode] cty(1) shc obtain w' where
          u: "unmount de c (elemProps de ps d r w) = Inr w'" and cv: "covers de (subnodes c) w'"
          by auto
        from self unmount_grows[OF u] have "covers de [?v] w'" by (rule covers_grows)
        with cv have "covers de (subnodes ?v) w'" using ChildVNode by (simp add: covers_def)
        moreover have "unmount de ?v w = Inr w'"
          using True cty u ChildVNode by (simp add: unmount_elem del: unmount.simps)
        ultimately show ?thesis by blast
      next
        case (ChildVNodes vs)
        with sh True have cty: "cty AND ChildrenTypes_MultipleChildren \<noteq> 0" and shc: "shaped_list vs"
          by auto
        from ih1[OF cty ChildVNodes] shc obtain w' where
          u: "unmountAllChildren de vs (elemProps de ps d r w) = Inr w'" and cv: "covers de (subnodes_list vs) w'"
          by auto
        from self unmountAllChildren_grows[OF u] have "covers de [?v] w'" by (rule covers_grows)
        with cv have "covers de (subnodes ?v) w'" using ChildVNodes by (simp add: covers_def)
        moreover have "unmount de ?v w = Inr w'"
          using True cty u ChildVNodes by (simp add: unmount_elem del: unmount.simps)
        ultimately show ?thesis by blast
      next
        case (ChildComponent x6)
        with sh True show ?thesis by simp
      qed
    qed
  next
    case False
    note ih3 = "1.IH"(3)[OF False]
    have self: "covers de [?v] w'" for w'
      using False by (simp add: covers_def delegatedCalls_def)
    show ?thesis
    proof (intro impI)
      assume sh: "shaped ?v"
      show "\<exists>w'. unmount de ?v w = Inr w' \<and> covers de (subnodes ?v) w'"
      proof (cases ch)
        case ChildNone
        with sh False self[of w] show ?thesis by (auto simp: unmount_nonelem simp del: unmount.simps)
      next
        case (ChildText x2)
        with sh False self[of w] show ?thesis by (auto simp: unmount_nonelem simp del: unmount.simps)
      next
        case (ChildNumber x3)
        with sh False self[of w] show ?thesis by (auto simp: unmount_nonelem simp del: unmount.simps)
      next
        case (ChildVNode c)
        with sh False show ?thesis by simp
      next
        case (ChildVNodes vs)
        with sh False show ?thesis by simp
      next
        case (ChildComponent c)
        with sh False have cc: "ty AND Types_ComponentClass \<noteq> 0" and shc: "shaped_component c"
          by auto
        from ih3[OF _ cc ChildComponent] ChildComponent shc obtain w' where
          u: "c_unmount de c w = Inr w'" and cv: "covers de (subnodes_component c) w'"
          by auto
        have g: "grows w' (emit (UnmountRef r) w')" by (rule grows_emit)
        from cv g have "covers de (subnodes_component c) (emit (UnmountRef r) w')" by (rule covers_grows)
        with self have "covers de (subnodes ?v) (emit (UnmountRef r) w')"
          using ChildComponent by (simp add: covers_def)
        moreover have "unmount de ?v w = Inr (emit (UnmountRef r) w')"
          using False cc u ChildComponent by (simp add: unmount_nonelem del: unmount.simps)
        ultimately show ?thesis by blast
      qed
    qed
  qed
next
  case (2 de w)
  then show ?case by (simp add: covers_def)
next
  case (3 de v vs w)
  show ?case
  proof (intro impI)
    assume sh: "shaped_list (v # vs)"
    with "3.IH"(1) obtain w1 where u1: "unmount de v w = Inr w1" and c1: "covers de (subnodes v) w1"
      by auto
    from "3.IH"(2)[OF u1] sh obtain w' where u2: "unmountAllChildren de vs w1 = Inr w'"
      and c2: "covers de (subnodes_list vs) w'"
      by auto
    from c1 unmountAllChildren_grows[OF u2] have "covers de (subnodes v) w'" by (rule covers_grows)
    with c2 u1 u2 show "\<exists>w'. unmountAllChildren de (v # vs) w = Inr w' \<and> covers de (subnodes_list (v # vs)) w'"
      by (simp add: covers_append)
  qed
next
  case (4 de i li hb hu w)
  show ?case
  proof (intro impI)
    assume sh: "shaped_component (Component i li hb hu)"
    then obtain v where li: "li = Some v" and shv: "shaped v" by (cases li) auto
    from "4.IH"[OF refl li] shv obtain w2 where u: "unmount de v (c_pre i hb w) = Inr w2"
      and cv: "covers de (subnodes v) w2"
      by (auto simp: c_pre_def)
    from cv c_post_grows have "covers de (subnodes v) (c_post i hu w2)" by (rule covers_grows)
    then show "\<exists>w'. c_unmount de (Component i li hb hu) w = Inr w' \<and>
        covers de (subnodes_component (Component i li hb hu)) w'"
      using u li by (simp add: c_unmount_Some del: c_unmount.simps)
  qed
qed

text \<open>
  Where \<open>unmount\<close> does descend. For every tree made of elements whose \<open>childrenType\<close>
  tells the shape of their children, class components holding an instance with a rendered
  subtree, and nodes without child VNodes, \<open>unmount\<close> returns, and for every element VNode
  of the tree (children of elements and rendered subtrees of components included) and
  every prop of it that is a delegated event, \<open>unmountDelegatedEvent\<close> has been called for
  that prop on the element's DOM node.
\<close>

lemma unmount_unregisters_delegated:
  "shaped v \<Longrightarrow>
   \<exists>w'. unmount de v w = Inr w' \<and>
        (\<forall>e\<in>set (subnodes v). set (delegatedCalls de e) \<subseteq> set (trace w'))"
  using unmount_covers_all(1)[of v de w] by (simp add: covers_def)

lemma unmount_unregisters_delegated_example:
  "shaped ex_div \<and> ex_div \<in> set (subnodes ex_div) \<and>
   UnmountDelegatedEvent ''ev-click'' (Some 1) \<in> set (delegatedCalls ex_de ex_div) \<and>
   UnmountDelegatedEvent ''ev-click'' (Some 1) \<in> set (trace (projr (unmount ex_de ex_div w0)))"
proof -
  have sh: "shaped ex_div"
    by (simp add: ex_defs Types_defs ChildrenTypes_defs)
  have mem: "ex_div \<in> set (subnodes ex_div)"
    by (simp add: ex_div_def)
  have dc: "UnmountDelegatedEvent ''ev-click'' (Some 1) \<in> set (delegatedCalls ex_de ex_div)"
    by (simp add: delegatedCalls_def ex_div_def ex_de_def Types_defs)
  from unmount_unregisters_delegated[OF sh, of ex_de w0] obtain w' where
    u: "unmount ex_de ex_div w0 = Inr w'"
    and all: "\<forall>e\<in>set (subnodes ex_div). set (delegatedCalls ex_de e) \<subseteq> set (trace w')"
    by blast
  from all mem dc have "UnmountDelegatedEvent ''ev-click'' (Some 1) \<in> set (trace w')" by blast
  with u sh mem dc show ?thesis by simp
qed

text \<open>
  Claim C4. The claim asks that \<open>unmount\<close> unregisters the delegated events of every
  element of the tree. The code does not: for a VNode that is neither an element nor a
  class component \<open>unmount\<close> returns at once, so on a fragment that holds a button with a
  delegated \<open>ev-click\<close> it makes no call at all and the button keeps its event. The
  element branch of the same function descends through \<open>childrenType\<close>, and
  \<open>removeAllChildren\<close> in the same file knows \<open>Types.Fragment\<close>.
\<close>

theorem unmount_skips_fragment_children:
  "unmount ex_de ex_fragment w0 = Inr w0 \<and>
   ex_button \<in> set (subnodes ex_fragment) \<and>
   vtype ex_button AND Types_Element \<noteq> 0 \<and>
   delegatedCalls ex_de ex_button = [UnmountDelegatedEvent ''ev-click'' (Some 2)] \<and>
   UnmountDelegatedEvent ''ev-click'' (Some 2) \<notin> set (trace w0)"
  by (simp add: ex_defs delegatedCalls_def Types_defs ChildrenTypes_defs)

subsection \<open>The unmounted state is terminal\<close>

lemma unmountProps_instances: "instances (unmountProps de ps d w) = instances w"
  by (induction de ps d w rule: unmountProps.induct) (auto simp: emit_def)

lemma elemProps_instances: "instances (elemProps de ps d r w) = instances w"
  by (cases ps) (simp_all add: elemProps_def unmountProps_instances emit_def)

lemma unmount_keepsUnmounted:
  "unmount de v w = Inr w' \<Longrightarrow> keepsUnmounted i w w'"
proof -
  have "\<forall>w'. unmount de v w = Inr w' \<longrightarrow> keepsUnmounted i w w'"
    by (rule unmount_preserves_all(1)[where R = "keepsUnmounted i"])
       (auto simp: keepsUnmounted_def elemProps_instances emit_def c_pre_def c_post_def Let_def)
  then show "unmount de v w = Inr w' \<Longrightarrow> keepsUnmounted i w w'" by simp
qed

text \<open>
  Claim C7, amended. When \<open>$unmount\<close> returns, it has called \<open>beforeUnmount\<close> (if defined)
  with \<open>$unmounted\<close> as it was, unmounted the \<open>$lastInput\<close> subtree, then set \<open>$unmounted\<close>,
  then called \<open>off\<close> and \<open>unmounted\<close> (if defined), which both find the flag set.
  \<open>$unmounted\<close> stays set through any later unmount, and \<open>forceUpdate\<close> on the component
  changes nothing: no call of the update helper, hence no render, no patch and no
  callback. Nothing is said of the other update paths.
\<close>

theorem unmounted_is_terminal:
  assumes "c_unmount de c w = Inr w'"
  shows "unmounted (instances w' (cid c)) \<and>
         forceUpdate (cid c) callback w' = w' \<and>
         (\<exists>v w2. lastInput c = Some v \<and>
            unmount de v
              (if hasBeforeUnmount c
               then emit (HookBeforeUnmount (cid c) (unmounted (instances w (cid c)))) w
               else w) = Inr w2 \<and>
            trace w' = trace w2 @ [EventOff (cid c) True] @
                         (if hasUnmounted c then [HookUnmounted (cid c) True] else []) \<and>
            instances w' = (instances w2)(cid c := (instances w2 (cid c))\<lparr>unmounted := True\<rparr>)) \<and>
         (\<forall>v' w''. unmount de v' w' = Inr w'' \<longrightarrow>
            unmounted (instances w'' (cid c)) \<and> forceUpdate (cid c) callback w'' = w'')"
proof -
  obtain i li hb hu where c: "c = Component i li hb hu" by (cases c)
  from assms c obtain v where li: "li = Some v" by (cases li) auto
  from assms[unfolded c li c_unmount_Some] obtain w2
    where u: "unmount de v (c_pre i hb w) = Inr w2" and w': "w' = c_post i hu w2"
    by (auto split: sum.splits)
  have flag: "unmounted (instances w' (cid c))"
    by (simp add: w' c c_post_def emit_def Let_def)
  have fu: "forceUpdate (cid c) callback w0 = w0" if "unmounted (instances w0 (cid c))" for w0
    using that by (simp add: forceUpdate_def)
  have tr: "trace w' = trace w2 @ [EventOff (cid c) True] @
              (if hasUnmounted c then [HookUnmounted (cid c) True] else [])"
    by (simp add: w' c c_post_def emit_def Let_def)
  have ins: "instances w' = (instances w2)(cid c := (instances w2 (cid c))\<lparr>unmounted := True\<rparr>)"
    by (simp add: w' c c_post_def emit_def Let_def)
  have later: "unmounted (instances w'' (cid c))" if "unmount de v' w' = Inr w''" for v' w''
    using unmount_keepsUnmounted[OF that, of "cid c"] flag by (simp add: keepsUnmounted_def)
  have stage: "\<exists>v w2. lastInput c = Some v \<and>
            unmount de v
              (if hasBeforeUnmount c
               then emit (HookBeforeUnmount (cid c) (unmounted (instances w (cid c)))) w
               else w) = Inr w2 \<and>
            trace w' = trace w2 @ [EventOff (cid c) True] @
                         (if hasUnmounted c then [HookUnmounted (cid c) True] else []) \<and>
            instances w' = (instances w2)(cid c := (instances w2 (cid c))\<lparr>unmounted := True\<rparr>)"
    using u tr ins by (auto simp: c li c_pre_def)
  show ?thesis
    using flag fu[OF flag] stage later fu by blast
qed

lemma ex_c_unmount:
  "c_unmount ex_de ex_instance w0 =
     Inr \<lparr>trace = [HookBeforeUnmount 7 False, EventOff 7 True, HookUnmounted 7 True],
          instances = (instances w0)(7 := (instances w0 7)\<lparr>unmounted := True\<rparr>)\<rparr>"
  by (simp add: ex_defs emit_def Types_defs ChildrenTypes_defs)

theorem unmounted_is_terminal_witness:
  "c_unmount ex_de ex_instance w0 = Inr (projr (c_unmount ex_de ex_instance w0)) \<and>
   unmounted (instances (projr (c_unmount ex_de ex_instance w0)) 7) \<and>
   trace (projr (c_unmount ex_de ex_instance w0)) =
     [HookBeforeUnmount 7 False, EventOff 7 True, HookUnmounted 7 True] \<and>
   forceUpdate 7 (Some 1) (projr (c_unmount ex_de ex_instance w0)) = projr (c_unmount ex_de ex_instance w0) \<and>
   unmount ex_de ex_text (projr (c_unmount ex_de ex_instance w0)) = Inr (projr (c_unmount ex_de ex_instance w0)) \<and>
   forceUpdate 7 (Some 1) w0 \<noteq> w0"
proof -
  have h: "c_unmount ex_de ex_instance w0 = Inr (projr (c_unmount ex_de ex_instance w0))"
    by (simp add: ex_c_unmount)
  have c: "cid ex_instance = 7" by (simp add: ex_instance_def)
  have t: "unmount ex_de ex_text w = Inr w" for w
    by (simp add: ex_defs Types_defs)
  have tr: "trace (projr (c_unmount ex_de ex_instance w0)) =
              [HookBeforeUnmount 7 False, EventOff 7 True, HookUnmounted 7 True]"
    by (simp add: ex_c_unmount)
  have n: "forceUpdate 7 (Some 1) w0 \<noteq> w0"
  proof
    assume "forceUpdate 7 (Some 1) w0 = w0"
    then have "trace (forceUpdate 7 (Some 1) w0) = trace w0" by simp
    then show False by (simp add: forceUpdate_def w0_def emit_def)
  qed
  from unmounted_is_terminal[OF h, of "Some 1"] h c t n tr
  show ?thesis by simp
qed

text \<open>
  Claim C7 as stated fails for \<open>set\<close>, which does not test \<open>$unmounted\<close>: on the
  unmounted component a plain \<open>set\<close> still calls \<open>setProps\<close>, and a silent \<open>set\<close> still
  writes the prop store.
\<close>

theorem unmounted_component_accepts_set:
  "unmounted (instances (projr (c_unmount ex_de ex_instance w0)) 7) \<and>
   trace (set_c ex_setH ex_setProps 7 (SetKey ''x'' (JNum 1) None)
            (projr (c_unmount ex_de ex_instance w0))) =
     trace (projr (c_unmount ex_de ex_instance w0)) @ [CallSetProps 7 [(''x'', JNum 1)]] \<and>
   iprops (instances (projr (c_unmount ex_de ex_instance w0)) 7) = [] \<and>
   iprops (instances (set_c ex_setH ex_setProps 7 (SetKey ''x'' (JNum 1) (Some \<lparr>silent = True\<rparr>))
                        (projr (c_unmount ex_de ex_instance w0))) 7) = [(''x'', JNum 1)]"
proof -
  have e: "projr (c_unmount ex_de ex_instance w0) =
             \<lparr>trace = [HookBeforeUnmount 7 False, EventOff 7 True, HookUnmounted 7 True],
              instances = (instances w0)(7 := (instances w0 7)\<lparr>unmounted := True\<rparr>)\<rparr>"
    by (simp add: ex_c_unmount)
  show ?thesis
    unfolding e by (simp add: set_c_def ex_setProps_def ex_setH_def emit_def w0_def)
qed

subsection \<open>Silent set\<close>

text \<open>
  Claim C5. \<open>set\<close> with \<open>{silent: true}\<close> writes the given entries into the prop store of
  the component with the helper \<open>set\<close> and changes nothing else: the trace is the same (no
  call of \<open>setProps\<close>, so no render, patch or notification), the other fields of the
  instance and all other instances are the same. A later non-silent \<open>set\<close> is
  \<open>setProps\<close> run on the store that holds the silently written values.
\<close>

theorem silent_set_only_writes_props:
  assumes "silent opts"
  shows "set_c setH setProps i (SetData d (Some opts)) w =
           w\<lparr>instances := (instances w)
               (i := (instances w i)
                  \<lparr>iprops := foldl (\<lambda>p (propName, v). setH p propName v) (iprops (instances w i)) d\<rparr>)\<rparr> \<and>
         set_c setH setProps i (SetKey k x (Some opts)) w =
           w\<lparr>instances := (instances w)
               (i := (instances w i)\<lparr>iprops := setH (iprops (instances w i)) k x\<rparr>)\<rparr> \<and>
         trace (set_c setH setProps i (SetData d (Some opts)) w) = trace w \<and>
         (\<forall>j. j \<noteq> i \<longrightarrow> instances (set_c setH setProps i (SetData d (Some opts)) w) j = instances w j) \<and>
         set_c setH setProps i (SetData d' None) (set_c setH setProps i (SetData d (Some opts)) w) =
           setProps i d'
             (w\<lparr>instances := (instances w)
                 (i := (instances w i)
                    \<lparr>iprops := foldl (\<lambda>p (propName, v). setH p propName v) (iprops (instances w i)) d\<rparr>)\<rparr>)"
  using assms by (simp add: set_c_def)

theorem silent_set_only_writes_props_witness:
  "silent \<lparr>silent = True\<rparr> \<and>
   iprops (instances (set_c ex_setH ex_setProps 3 (SetKey ''x'' (JNum 1) (Some \<lparr>silent = True\<rparr>)) w0) 3)
     = [(''x'', JNum 1)] \<and>
   trace (set_c ex_setH ex_setProps 3 (SetData [(''x'', JNum 1)] (Some \<lparr>silent = True\<rparr>)) w0) = [] \<and>
   trace (set_c ex_setH ex_setProps 3 (SetData [(''y'', JNum 2)] None)
            (set_c ex_setH ex_setProps 3 (SetData [(''x'', JNum 1)] (Some \<lparr>silent = True\<rparr>)) w0))
     = [CallSetProps 3 [(''y'', JNum 2)]] \<and>
   iprops (instances (set_c ex_setH ex_setProps 3 (SetData [(''y'', JNum 2)] None)
            (set_c ex_setH ex_setProps 3 (SetData [(''x'', JNum 1)] (Some \<lparr>silent = True\<rparr>)) w0)) 3)
     = [(''x'', JNum 1)]"
proof -
  have s: "silent \<lparr>silent = True\<rparr>" by simp
  note T = silent_set_only_writes_props[OF s, of ex_setH ex_setProps 3 "[(''x'', JNum 1)]" w0
      "''x''" "JNum 1" "[(''y'', JNum 2)]"]
  have p0: "iprops (instances w0 3) = []" by (simp add: w0_def)
  from T[THEN conjunct1] have c1: "set_c ex_setH ex_setProps 3 (SetData [(''x'', JNum 1)] (Some \<lparr>silent = True\<rparr>)) w0 =
      w0\<lparr>instances := (instances w0)(3 := (instances w0 3)\<lparr>iprops := [(''x'', JNum 1)]\<rparr>)\<rparr>"
    by (simp add: p0 ex_setH_def)
  from T[THEN conjunct2, THEN conjunct1] have c2: "set_c ex_setH ex_setProps 3 (SetKey ''x'' (JNum 1) (Some \<lparr>silent = True\<rparr>)) w0 =
      w0\<lparr>instances := (instances w0)(3 := (instances w0 3)\<lparr>iprops := [(''x'', JNum 1)]\<rparr>)\<rparr>"
    by (simp add: p0 ex_setH_def)
  from T[THEN conjunct2, THEN conjunct2, THEN conjunct2, THEN conjunct2] have c5: "set_c ex_setH ex_setProps 3 (SetData [(''y'', JNum 2)] None)
      (set_c ex_setH ex_setProps 3 (SetData [(''x'', JNum 1)] (Some \<lparr>silent = True\<rparr>)) w0) =
      ex_setProps 3 [(''y'', JNum 2)]
        (w0\<lparr>instances := (instances w0)(3 := (instances w0 3)\<lparr>iprops := [(''x'', JNum 1)]\<rparr>)\<rparr>)"
    by (simp add: p0 ex_setH_def)
  show ?thesis
    unfolding c5 unfolding c1 c2
    by (simp add: w0_def ex_setProps_def emit_def)
qed

subsection \<open>A rejected init\<close>

text \<open>
  Claim C6, amended. When the promise returned by \<open>init\<close> rejects, the handler logs the
  error with \<open>console.error\<close> if \<open>NODE_ENV\<close> is not \<open>production\<close>, and then calls
  \<open>componentInited\<close> with the same arguments as the handler of a fulfilled promise: apart
  from the logged error the two outcomes give the same trace and the same instances, and the
  same trace as an \<open>init\<close> that returns no promise. The constructor itself only registers
  the handlers.
\<close>

theorem init_rejection_completes:
  "settle env pd (Rejected err) w =
     settle env pd Fulfilled
       (if env \<noteq> ''production''
        then emit (ConsoleError ''Unhandled promise rejection in init: '' err) w else w) \<and>
   instances (settle env pd (Rejected err) w) = instances (settle env pd Fulfilled w) \<and>
   filter (\<lambda>e. \<not> isConsoleError e) (trace (settle env pd (Rejected err) w)) =
     filter (\<lambda>e. \<not> isConsoleError e) (trace (settle env pd Fulfilled w)) \<and>
   last (trace (settle env pd (Rejected err) w)) =
     CallComponentInited (pcid pd) (triggerReceiveEvents pd) \<and>
   (env \<noteq> ''production'' \<longrightarrow>
      trace (settle env pd (Rejected err) w) =
        trace w @ [ConsoleError ''Unhandled promise rejection in init: '' err,
                   CallComponentInited (pcid pd) (triggerReceiveEvents pd)]) \<and>
   snd (constructor i defaults (Some RetPromise) ps w) = Some \<lparr>pcid = i, triggerReceiveEvents = ps\<rparr> \<and>
   filter (\<lambda>e. \<not> isConsoleError e)
     (trace (settle env \<lparr>pcid = i, triggerReceiveEvents = ps\<rparr> (Rejected err)
               (fst (constructor i defaults (Some RetPromise) ps w)))) =
   filter (\<lambda>e. \<not> isConsoleError e)
     (trace (fst (constructor i defaults (Some RetPlain) ps w)))"
  by (simp add: settle_def componentInited_def emit_def isConsoleError_def constructor_def Let_def
        split: option.splits)

theorem init_rejection_completes_witness:
  "''development'' \<noteq> ''production'' \<and>
   trace (settle ''development'' ex_pending (Rejected (JStr ''boom'')) w0) =
     [ConsoleError ''Unhandled promise rejection in init: '' (JStr ''boom''),
      CallComponentInited 7 (Some [(''a'', JNum 1)])] \<and>
   trace (settle ''development'' ex_pending Fulfilled w0) = [CallComponentInited 7 (Some [(''a'', JNum 1)])]"
proof -
  have e: "''development'' \<noteq> ''production''" by simp
  have f: "trace (settle ''development'' ex_pending Fulfilled w0) = [CallComponentInited 7 (Some [(''a'', JNum 1)])]"
    by (simp add: settle_def componentInited_def emit_def ex_pending_def w0_def)
  note T = init_rejection_completes[of "''development''" ex_pending "JStr ''boom''" w0 0 "[]" None]
  from T e have t: "trace (settle ''development'' ex_pending (Rejected (JStr ''boom'')) w0) =
      trace w0 @ [ConsoleError ''Unhandled promise rejection in init: '' (JStr ''boom''),
                  CallComponentInited (pcid ex_pending) (triggerReceiveEvents ex_pending)]"
    by blast
  have p: "trace w0 = []" "pcid ex_pending = 7" "triggerReceiveEvents ex_pending = Some [(''a'', JNum 1)]"
    by (simp_all add: w0_def ex_pending_def)
  show ?thesis unfolding t f p using e by simp
qed

text \<open>
  Claim C6 as stated fails in a production build: the rejection is not logged.
\<close>

theorem init_rejection_not_logged_in_production:
  "trace (settle ''production'' ex_pending (Rejected (JStr ''boom'')) w0) =
     [CallComponentInited 7 (Some [(''a'', JNum 1)])] \<and>
   \<not> isConsoleError (CallComponentInited 7 (Some [(''a'', JNum 1)]))"
  by (simp add: settle_def componentInited_def emit_def ex_pending_def w0_def isConsoleError_def)

subsection \<open>The keyed flag\<close>

lemma parseJSXExpression_node:
  "parseJSXExpression p pf st = Ok (n, st') \<Longrightarrow> attributeName n = None"
  by (auto simp: parseJSXExpression_def Let_def split: result.splits prod.splits)

lemma assign_keys: "fst ` set (assign name v m) = insert name (fst ` set m)"
  by (auto simp: assign_def)

lemma routeAttribute_key:
  assumes "keyed acc = (namesKey acc \<or> name = ''key'')"
  shows "keyed (fst (routeAttribute p name v loc acc st)) = namesKey (fst (routeAttribute p name v loc acc st))"
proof -
  have nk: "''key'' \<noteq> Directives_If" "''key'' \<noteq> Directives_ElseIf" "''key'' \<noteq> Directives_Else"
    by (simp_all add: Directives_If_def Directives_ElseIf_def Directives_Else_def)
  show ?thesis
  proof (cases "name = Directives_If \<or> name = Directives_ElseIf \<or> name = Directives_Else")
    case True
    with nk have "name \<noteq> ''key''" by auto
    with True assms show ?thesis
      by (simp add: routeAttribute_def Let_def namesKey_def)
  next
    case False
    with assms show ?thesis
      by (cases "directivesMap p name")
         (auto simp: routeAttribute_def Let_def namesKey_def assign_keys)
  qed
qed

lemma parseJSXAttribute_named_inv:
  assumes "parseJSXAttribute_named p pf tag ty acc st = Ok (acc', st')"
  obtains name st1 v st2 where
    "parseJSXAttributeName p st = Ok (name, st1)"
    "parseJSXAttribute_value p pf st1 = Ok (v, st2)"
    "validateAttribute p tag ty name v = None"
    "(acc', st') = routeAttribute p name v (getLocation st)
                     (if \<not> keyed acc \<and> name = ''key'' then acc\<lparr>keyed := True\<rparr> else acc) st2"
proof (cases "parseJSXAttributeName p st")
  case (Ok x)
  obtain name st1 where x: "x = (name, st1)" by (cases x)
  show ?thesis
  proof (cases "parseJSXAttribute_value p pf st1")
    case v: (Ok y)
    obtain v st2 where y: "y = (v, st2)" by (cases y)
    show ?thesis
    proof (cases "validateAttribute p tag ty name v")
      case None
      with assms Ok x v y that[of name st1 v st2] show ?thesis
        by (simp add: parseJSXAttribute_named_def Let_def)
    next
      case (Some e)
      with assms Ok x v y show ?thesis by (simp add: parseJSXAttribute_named_def Let_def)
    qed
  next
    case (Err e)
    with assms Ok x show ?thesis by (simp add: parseJSXAttribute_named_def Let_def)
  next
    case OutOfFuel
    with assms Ok x show ?thesis by (simp add: parseJSXAttribute_named_def Let_def)
  qed
next
  case (Err e)
  with assms show ?thesis by (simp add: parseJSXAttribute_named_def Let_def)
next
  case OutOfFuel
  with assms show ?thesis by (simp add: parseJSXAttribute_named_def Let_def)
qed

lemma parseJSXAttribute_named_key:
  assumes "parseJSXAttribute_named p pf tag ty acc st = Ok (acc', st')"
    and "keyed acc = namesKey acc"
  shows "keyed acc' = namesKey acc'"
proof -
  from assms(1) obtain name st1 v st2 where
    r: "(acc', st') = routeAttribute p name v (getLocation st)
                     (if \<not> keyed acc \<and> name = ''key'' then acc\<lparr>keyed := True\<rparr> else acc) st2"
    by (rule parseJSXAttribute_named_inv)
  let ?acc1 = "if \<not> keyed acc \<and> name = ''key'' then acc\<lparr>keyed := True\<rparr> else acc"
  have "keyed ?acc1 = (namesKey ?acc1 \<or> name = ''key'')"
    using assms(2) by (auto simp: namesKey_def)
  from routeAttribute_key[OF this, of p v "getLocation st" st2] r
  show ?thesis by (metis fst_conv)
qed

lemma parseJSXAttribute_loop_key:
  "parseJSXAttribute_loop k p pf tag ty acc st = Ok (acc', st') \<Longrightarrow>
   keyed acc = namesKey acc \<Longrightarrow> keyed acc' = namesKey acc'"
proof (induction k arbitrary: acc st)
  case 0
  then show ?case by simp
next
  case (Suc k)
  show ?case
  proof (cases "index st < length (source p)")
    case False
    with Suc.prems show ?thesis by simp
  next
    case True
    let ?st1 = "skipWhitespace p st"
    show ?thesis
    proof (cases "pchar p ?st1 = Some CHR ''/'' \<or> pchar p ?st1 = Some CHR ''>''")
      case stop: True
      with True Suc.prems show ?thesis by (auto simp: Let_def)
    next
      case stop: False
      show ?thesis
      proof (cases "isExpect p (fst (delimiters p)) (index ?st1)")
        case ex: True
        with True stop Suc.prems(1) obtain expression st2 where
          e: "parseJSXExpression p pf ?st1 = Ok (expression, st2)"
          and r: "parseJSXAttribute_loop k p pf tag ty
                    (if expressionValue expression \<noteq> []
                     then acc\<lparr>attributes := attributes acc @ [expression]\<rparr> else acc) st2 = Ok (acc', st')"
          by (auto simp: Let_def split: result.splits)
        from parseJSXExpression_node[OF e] Suc.prems(2)
        have "keyed (if expressionValue expression \<noteq> []
                     then acc\<lparr>attributes := attributes acc @ [expression]\<rparr> else acc) =
              namesKey (if expressionValue expression \<noteq> []
                     then acc\<lparr>attributes := attributes acc @ [expression]\<rparr> else acc)"
          by (auto simp: namesKey_def)
        from Suc.IH[OF r this] show ?thesis .
      next
        case ex: False
        with True stop Suc.prems(1) obtain acc1 st2 where
          n: "parseJSXAttribute_named p pf tag ty acc ?st1 = Ok (acc1, st2)"
          and r: "parseJSXAttribute_loop k p pf tag ty acc1 st2 = Ok (acc', st')"
          by (auto simp: Let_def split: result.splits)
        from Suc.IH[OF r parseJSXAttribute_named_key[OF n Suc.prems(2)]] show ?thesis .
      qed
    qed
  qed
qed

text \<open>The names read are in the source, and the loop ends at the end of the tag.\<close>

lemma routeAttribute_keyed:
  "keyed (fst (routeAttribute p name v loc acc st)) = keyed acc"
  by (simp add: routeAttribute_def Let_def)

lemma take_length_take: "take (length (take n xs)) xs = take n xs"
  by (cases "n \<le> length xs") (simp_all add: min_def)

lemma getValue_source: "isExpect p (getValue p start st) start"
  unfolding isExpect_def getValue_def by (rule take_length_take)

lemma parseJSXAttributeName_source:
  "parseJSXAttributeName p st = Ok (name, st') \<Longrightarrow> isExpect p name (index st)"
  using getValue_source[of p "index st"]
  by (auto simp: parseJSXAttributeName_def Let_def error_def split: if_splits)

lemma parseJSXAttribute_loop_names:
  "parseJSXAttribute_loop k p pf tag ty acc st = Ok (acc', st') \<Longrightarrow>
   keyed acc' = (keyed acc \<or> ''key'' \<in> snd ` set (parseJSXAttribute_names k p pf tag ty acc st)) \<and>
   (\<forall>x\<in>set (parseJSXAttribute_names k p pf tag ty acc st). isExpect p (snd x) (fst x)) \<and>
   (index st' < length (source p) \<longrightarrow> pchar p st' = Some CHR ''/'' \<or> pchar p st' = Some CHR ''>'')"
proof (induction k arbitrary: acc st)
  case 0
  then show ?case by simp
next
  case (Suc k)
  show ?case
  proof (cases "index st < length (source p)")
    case False
    with Suc.prems show ?thesis by simp
  next
    case True
    let ?st1 = "skipWhitespace p st"
    show ?thesis
    proof (cases "pchar p ?st1 = Some CHR ''/'' \<or> pchar p ?st1 = Some CHR ''>''")
      case stop: True
      with True Suc.prems have "acc' = acc" "st' = ?st1" by (auto simp: Let_def)
      with True stop show ?thesis by (auto simp: Let_def)
    next
      case stop: False
      show ?thesis
      proof (cases "isExpect p (fst (delimiters p)) (index ?st1)")
        case ex: True
        let ?acc1 = "\<lambda>expression. if expressionValue expression \<noteq> []
                     then acc\<lparr>attributes := attributes acc @ [expression]\<rparr> else acc"
        from True stop ex Suc.prems(1) obtain expression st2 where
          e: "parseJSXExpression p pf ?st1 = Ok (expression, st2)"
          and r: "parseJSXAttribute_loop k p pf tag ty (?acc1 expression) st2 = Ok (acc', st')"
          by (auto simp: Let_def split: result.splits)
        have n: "parseJSXAttribute_names (Suc k) p pf tag ty acc st =
                 parseJSXAttribute_names k p pf tag ty (?acc1 expression) st2"
          using True stop ex e by (simp add: Let_def)
        have k: "keyed (?acc1 expression) = keyed acc" by simp
        from Suc.IH[OF r] show ?thesis unfolding n k by simp
      next
        case ex: False
        from True stop ex Suc.prems(1) obtain acc1 st2 where
          nm: "parseJSXAttribute_named p pf tag ty acc ?st1 = Ok (acc1, st2)"
          and r: "parseJSXAttribute_loop k p pf tag ty acc1 st2 = Ok (acc', st')"
          by (auto simp: Let_def split: result.splits)
        from nm obtain name st1' v st2' where
          an: "parseJSXAttributeName p ?st1 = Ok (name, st1')"
          and rt: "(acc1, st2) = routeAttribute p name v (getLocation ?st1)
                     (if \<not> keyed acc \<and> name = ''key'' then acc\<lparr>keyed := True\<rparr> else acc) st2'"
          by (rule parseJSXAttribute_named_inv)
        have n: "parseJSXAttribute_names (Suc k) p pf tag ty acc st =
                 (index ?st1, name) # parseJSXAttribute_names k p pf tag ty acc1 st2"
          using True stop ex an nm by (simp add: Let_def)
        have "keyed acc1 = keyed (if \<not> keyed acc \<and> name = ''key'' then acc\<lparr>keyed := True\<rparr> else acc)"
          using rt routeAttribute_keyed[of p name v "getLocation ?st1" _ st2'] by (metis fst_conv)
        then have k: "keyed acc1 = (keyed acc \<or> name = ''key'')" by auto
        from Suc.IH[OF r] parseJSXAttributeName_source[OF an] show ?thesis
          unfolding n k by auto
      qed
    qed
  qed
qed

text \<open>
  Claim C9. When \<open>parseJSXAttribute\<close> returns, the \<open>keyed\<close> flag is true if and only if
  \<open>key\<close> is among the attribute names read from the source between the tag name and the
  end of the tag. Each name read stands in the source at its index; the loop reads on
  until \<open>/\<close>, \<open>>\<close> or the end of input, so no attribute of the tag is left out; and an
  attribute named \<open>key\<close> is then on the returned attribute list or, were \<open>key\<close> in the
  directive set, in the directive mapping under its name. Spread expressions carry no
  name and do not count.
\<close>

theorem keyed_iff_key_attribute:
  assumes "parseJSXAttribute fuel p pf tag ty st = Ok (a, st')"
  shows "keyed a = (''key'' \<in> snd ` set (attributeNames fuel p pf tag ty st)) \<and>
         (\<forall>x\<in>set (attributeNames fuel p pf tag ty st). isExpect p (snd x) (fst x)) \<and>
         (index st' < length (source p) \<longrightarrow>
            pchar p st' = Some CHR ''/'' \<or> pchar p st' = Some CHR ''>'') \<and>
         keyed a = (Some ''key'' \<in> attributeName ` set (attributes a) \<or>
                    ''key'' \<in> fst ` set (dCommon (adirectives a)))"
proof -
  have "keyed a = namesKey a"
    using assms unfolding parseJSXAttribute_def
    by (rule parseJSXAttribute_loop_key) (simp add: namesKey_def)
  then have 1: "keyed a = (Some ''key'' \<in> attributeName ` set (attributes a) \<or>
                    ''key'' \<in> fst ` set (dCommon (adirectives a)))"
    by (simp add: namesKey_def)
  from parseJSXAttribute_loop_names[OF assms[unfolded parseJSXAttribute_def]] 1
  show ?thesis unfolding attributeNames_def by simp
qed

lemma ex_spread_run:
  "parseJSXAttribute 10 ex_spread (parse 10 ex_spread False) ''div'' JSXCommonElement ex_st4 =
     Ok (\<lparr>attributes =
           [ASTExpression JSXExpression
              [ASTJS [''a''] 0 \<lparr>loc_line = 1, loc_column = 7\<rparr>]
              \<lparr>loc_line = 1, loc_column = 6\<rparr>,
            ASTAttribute ''key''
              (ASTExpression JSXExpression
                 [ASTJS [''b''] 0 \<lparr>loc_line = 1, loc_column = 15\<rparr>]
                 \<lparr>loc_line = 1, loc_column = 14\<rparr>)
              \<lparr>loc_line = 1, loc_column = 10\<rparr>],
          adirectives = Directives None None None [], keyed = True, hasVRaw = False\<rparr>,
         \<lparr>index = 16, line = 1, column = 17, fresh = 0, nexts = []\<rparr>)"
  by code_simp

lemma ex_spread_names:
  "attributeNames 10 ex_spread (parse 10 ex_spread False) ''div'' JSXCommonElement ex_st4 =
     [(9, ''key'')]"
  by code_simp

theorem keyed_iff_key_attribute_witness:
  "is_Ok (parseJSXAttribute 10 ex_spread (parse 10 ex_spread False) ''div'' JSXCommonElement ex_st4) \<and>
   keyed (fst (the_Ok (parseJSXAttribute 10 ex_spread (parse 10 ex_spread False) ''div''
                         JSXCommonElement ex_st4))) \<and>
   attributeNames 10 ex_spread (parse 10 ex_spread False) ''div'' JSXCommonElement ex_st4 =
     [(9, ''key'')] \<and>
   isExpect ex_spread ''key'' 9 \<and>
   pchar ex_spread (snd (the_Ok (parseJSXAttribute 10 ex_spread (parse 10 ex_spread False) ''div''
                                   JSXCommonElement ex_st4))) = Some CHR ''>''"
proof -
  have src: "index \<lparr>index = 16, line = 1, column = 17, fresh = 0, nexts = []\<rparr>
               < length (source ex_spread)"
    by (simp add: ex_spread_def)
  have pc: "pchar ex_spread \<lparr>index = 16, line = 1, column = 17, fresh = 0, nexts = []\<rparr> =
              Some CHR ''>''"
    by code_simp
  from keyed_iff_key_attribute[OF ex_spread_run] src pc
  show ?thesis by (simp add: ex_spread_run ex_spread_names)
qed

subsection \<open>The directive chain\<close>

subsection \<open>One step of the directive loop\<close>

lemma linkChild_if:
  "carriesIf e \<Longrightarrow> linkChild p e directiveIf nx = Ok (Some (addr e), nx, True)"
  by (auto simp: carriesIf_def linkChild_def Let_def addr_def branch_def)

lemma linkChild_plain:
  "\<not> carriesIf e \<Longrightarrow> \<not> chained e \<Longrightarrow> linkChild p e directiveIf nx = Ok (directiveIf, nx, True)"
  by (auto simp: carriesIf_def chained_def carriesElseIf_def carriesElse_def linkChild_def Let_def
           split: option.splits)

lemma linkChild_chained:
  "chained e \<Longrightarrow>
   linkChild p e (Some a) nx = Ok (if carriesElseIf e then Some (addr e) else None, (a, e) # nx, False)"
  by (auto simp: chained_def carriesElseIf_def carriesElse_def linkChild_def linkNext_def Let_def
                 addr_def branch_def split: option.splits)

lemma linkChild_orphan:
  "chained e \<Longrightarrow> NODE_ENV p \<noteq> ''production'' \<Longrightarrow>
   linkChild p e None nx = Err (ParseError (mustBeLead (dname (the (branch e)))) (node_loc e))"
  by (auto simp: chained_def carriesElseIf_def carriesElse_def linkChild_def linkNext_def Let_def
                 branch_def split: option.splits)

lemma linkChild_orphan_production:
  "chained e \<Longrightarrow> NODE_ENV p = ''production'' \<Longrightarrow> linkChild p e None nx = Err NullDereference"
  by (auto simp: chained_def carriesElseIf_def carriesElse_def linkChild_def linkNext_def Let_def
           split: option.splits)

lemma kinds_exclusive:
  "carriesIf e \<Longrightarrow> \<not> chained e"
  "carriesElseIf e \<Longrightarrow> \<not> carriesElse e"
  by (auto simp: carriesIf_def chained_def carriesElseIf_def carriesElse_def)

lemma linkChild_Ok_cases:
  assumes "linkChild p e directiveIf nx = Ok (d', nx', pushed)"
  shows "pushed = (\<not> chained e) \<and>
         (d' \<noteq> None) = chainOpen_step e (directiveIf \<noteq> None) \<and>
         (nx' = nx \<or> (\<exists>a. directiveIf = Some a \<and> chained e \<and> nx' = (a, e) # nx))"
proof (cases "carriesIf e")
  case True
  with assms kinds_exclusive(1)[OF True] show ?thesis
    by (auto simp: linkChild_if chainOpen_step_def)
next
  case False
  show ?thesis
  proof (cases "chained e")
    case c: False
    with False assms show ?thesis
      by (auto simp: linkChild_plain chainOpen_step_def chained_def)
  next
    case c: True
    show ?thesis
    proof (cases directiveIf)
      case None
      with c assms show ?thesis
        by (cases "NODE_ENV p = ''production''")
           (simp_all add: linkChild_orphan linkChild_orphan_production)
    next
      case (Some a)
      with c assms False show ?thesis
        by (auto simp: linkChild_chained chainOpen_step_def chained_def kinds_exclusive)
    qed
  qed
qed

lemma linkChild_directive:
  "linkChild p c d nx = Ok (d1, nx1, pushed) \<Longrightarrow> d1 = Some a \<Longrightarrow>
   d = Some a \<or> (branch c \<noteq> None \<and> addr c = a)"
  by (auto simp: linkChild_def linkNext_def Let_def addr_def branch_def split: option.splits if_splits)

subsection \<open>The cursor functions leave the directive objects alone\<close>

lemma heap_updateIndex [simp]: "heap (updateIndex n st) = heap st"
  by (simp add: heap_def updateIndex_def)

lemma heap_updateLine [simp]: "heap (updateLine st) = heap st"
  by (simp add: heap_def updateLine_def)

lemma heap_expect: "expect p str msg loc st = Ok st' \<Longrightarrow> heap st' = heap st"
  by (auto simp: expect_def error_def split: if_splits)

lemma heap_skipWhitespace [simp]: "heap (skipWhitespace p st) = heap st"
proof (induction p st rule: skipWhitespace.induct)
  case (1 p st)
  show ?case
    using "1.IH" by (subst skipWhitespace.simps) (auto simp: Let_def)
qed

lemma heap_scanJSXIdentifier [simp]: "heap (scanJSXIdentifier p st) = heap st"
proof (induction p st rule: scanJSXIdentifier.induct)
  case (1 p st)
  show ?case
    using "1.IH" by (subst scanJSXIdentifier.simps) (auto simp: Let_def)
qed

lemma heap_parseJSXComment_loop [simp]: "heap (parseJSXComment_loop p st) = heap st"
proof (induction p st rule: parseJSXComment_loop.induct)
  case (1 p st)
  show ?case
    using "1.IH" by (subst parseJSXComment_loop.simps) (auto simp: Let_def)
qed

lemma heap_scanJSXText_loop [simp]: "heap (scanJSXText_loop p sc st) = heap st"
proof (induction p sc st rule: scanJSXText_loop.induct)
  case (1 p sc st)
  show ?case
    using "1.IH" by (subst scanJSXText_loop.simps) (auto simp: Let_def)
qed

lemma heap_scanJSXText: "scanJSXText p sc st = (n, st') \<Longrightarrow> heap st' = heap st"
  by (auto simp: scanJSXText_def Let_def)

lemma heap_scanString_loop:
  "scanString_loop p q str st = (str', closed, st') \<Longrightarrow> heap st' = heap st"
proof (induction p q str st arbitrary: str' closed st' rule: scanString_loop.induct)
  case (1 p quote str st)
  show ?case
    using "1.prems" "1.IH"
    by (subst (asm) scanString_loop.simps) (auto simp: Let_def split: if_splits)
qed

lemma heap_scanString: "scanString p st = Ok (n, st') \<Longrightarrow> heap st' = heap st"
proof -
  assume a: "scanString p st = Ok (n, st')"
  obtain str closed st1 where l: "scanString_loop p (pchar p st) [] (updateIndex 1 st) = (str, closed, st1)"
    by (cases "scanString_loop p (pchar p st) [] (updateIndex 1 st)") auto
  from a l have "st' = st1"
    by (auto simp: scanString_def Let_def error_def split: if_splits)
  with heap_scanString_loop[OF l] show ?thesis by simp
qed

lemma heap_skipLineComment [simp]: "heap (skipLineComment p st) = heap st"
proof (induction p st rule: skipLineComment.induct)
  case (1 p st)
  show ?case
    using "1.IH" by (subst skipLineComment.simps) (auto simp: Let_def)
qed

lemma heap_skipBlockComment [simp]: "heap (skipBlockComment p st) = heap st"
proof (induction p st rule: skipBlockComment.induct)
  case (1 p st)
  show ?case
    using "1.IH" by (subst skipBlockComment.simps) (auto simp: Let_def)
qed

lemma heap_skipJSComment_body [simp]: "heap (skipJSComment_body p st) = heap st"
  by (simp add: skipJSComment_body_def Let_def)

lemma heap_skipJSComment [simp]: "heap (skipJSComment p st) = heap st"
proof (induction p st rule: skipJSComment.induct)
  case (1 p st)
  show ?case
    using "1.IH" by (subst skipJSComment.simps) (auto simp: Let_def)
qed

lemma heap_skipWhitespaceAndJSComment [simp]: "heap (skipWhitespaceAndJSComment p st) = heap st"
proof (induction p st rule: skipWhitespaceAndJSComment.induct)
  case (1 p st)
  show ?case
    using "1.IH" by (subst skipWhitespaceAndJSComment.simps) (auto simp: Let_def)
qed

lemma heap_skipWhitespaceBetweenTags_loop [simp]:
  "heap (skipWhitespaceBetweenTags_loop p endTag b start st) = heap st"
proof (induction p endTag b start st rule: skipWhitespaceBetweenTags_loop.induct)
  case (1 p endTag b start st)
  show ?case
    using "1.IH" by (subst skipWhitespaceBetweenTags_loop.simps) (auto simp: Let_def)
qed

lemma heap_skipWhitespaceBetweenTags [simp]:
  "heap (skipWhitespaceBetweenTags p endTag b st) = heap st"
  by (simp add: skipWhitespaceBetweenTags_def)

lemma heap_scanJS_body:
  "scanJS_body p isRoot spaces v st = Ok r \<Longrightarrow>
   heap (snd (case r of Continue x \<Rightarrow> x | Break x \<Rightarrow> x)) = heap st"
proof -
  assume a: "scanJS_body p isRoot spaces v st = Ok r"
  show ?thesis
  proof (cases "isStringStart p (skipJSComment p st)")
    case True
    with a obtain str st' where s: "scanString p (skipJSComment p st) = Ok (str, st')"
      and r: "r = Continue (v, st')"
      by (auto simp: scanJS_body_def Let_def split: result.splits)
    from heap_scanString[OF s] r show ?thesis by simp
  next
    case False
    with a show ?thesis
      by (auto simp: scanJS_body_def Let_def split: if_splits)
  qed
qed

lemma heap_scanJS_loop:
  "scanJS_loop p isRoot spaces v st = Ok (v', st') \<Longrightarrow> heap st' = heap st"
proof (induction p isRoot spaces v st arbitrary: v' st' rule: scanJS_loop.induct)
  case (1 p isRoot spaces v st)
  show ?case
  proof (cases "index st < length (source p)")
    case False
    with "1.prems" show ?thesis by (subst (asm) scanJS_loop.simps) simp
  next
    case True
    show ?thesis
    proof (cases "scanJS_body p isRoot spaces v st")
      case (Ok r)
      show ?thesis
      proof (cases r)
        case (Break x)
        with True Ok "1.prems" heap_scanJS_body[OF Ok] show ?thesis
          by (subst (asm) scanJS_loop.simps) auto
      next
        case (Continue x)
        obtain v1 st1 where x: "x = (v1, st1)" by (cases x)
        from True Ok Continue x "1.prems" have "scanJS_loop p isRoot spaces v1 st1 = Ok (v', st')"
          by (subst (asm) scanJS_loop.simps) simp
        from "1.IH"[OF True Ok Continue x[symmetric] this] heap_scanJS_body[OF Ok] Continue x
        show ?thesis by simp
      qed
    next
      case (Err e)
      with True "1.prems" show ?thesis by (subst (asm) scanJS_loop.simps) simp
    next
      case OutOfFuel
      with True "1.prems" show ?thesis by (subst (asm) scanJS_loop.simps) simp
    qed
  qed
qed

lemma heap_scanJS: "scanJS p braces isRoot spaces st = Ok (n, b, st') \<Longrightarrow> heap st' = heap st"
  by (auto simp: scanJS_def Let_def split: result.splits dest: heap_scanJS_loop)

lemma heap_scanJSImport_semicolon [simp]: "heap (scanJSImport_semicolon p st) = heap st"
  by (simp add: scanJSImport_semicolon_def Let_def)

lemma heap_scanJSImport_semicolons [simp]: "heap (scanJSImport_semicolons p st) = heap st"
proof (induction p st rule: scanJSImport_semicolons.induct)
  case (1 p st)
  show ?case
    using "1.IH" by (subst scanJSImport_semicolons.simps) (auto simp: Let_def)
qed

lemma heap_scanJSImport_loop: "scanJSImport_loop p st = Ok st' \<Longrightarrow> heap st' = heap st"
proof (induction p st arbitrary: st' rule: scanJSImport_loop.induct)
  case (1 p st)
  show ?case
    using "1.prems" "1.IH"
    by (subst (asm) scanJSImport_loop.simps)
       (auto simp: Let_def split: if_splits result.splits dest: heap_scanString)
qed

lemma heap_scanJSImport: "scanJSImport p st = Ok (n, st') \<Longrightarrow> heap st' = heap st"
  by (auto simp: scanJSImport_def Let_def split: result.splits dest: heap_scanJSImport_loop)

lemma heap_parseJSXAttributeName: "parseJSXAttributeName p st = Ok (n, st') \<Longrightarrow> heap st' = heap st"
  by (auto simp: parseJSXAttributeName_def Let_def error_def split: if_splits)

lemma heap_parseJSXComment: "parseJSXComment p st = Ok (n, st') \<Longrightarrow> heap st' = heap st"
  by (auto simp: parseJSXComment_def Let_def split: result.splits dest!: heap_expect)

lemma heap_parseJSXClosingTag: "parseJSXClosingTag p endTag loc st = Ok st' \<Longrightarrow> heap st' = heap st"
  by (auto simp: parseJSXClosingTag_def Let_def split: result.splits dest!: heap_expect)

lemma heap_parseJSXExpression_head:
  "parseJSXExpression_head p st = Ok (ty, sp, st') \<Longrightarrow> heap st' = heap st"
  by (auto simp: parseJSXExpression_head_def Let_def split: result.splits option.splits if_splits
           dest!: heap_expect)

lemma heap_parseJSXChildrenValue_raw:
  "parseJSXChildrenValue_raw k p endTag chs st = Ok (chs', st') \<Longrightarrow> heap st' = heap st"
proof (induction k arbitrary: chs st)
  case 0
  then show ?case by simp
next
  case (Suc k)
  then show ?case
    by (auto simp: Let_def split: if_splits prod.splits dest!: heap_scanJSXText)
qed

subsection \<open>Directive nodes are fresh objects\<close>

text \<open>
  Every function of the parser allocates above the counter it finds, and an element comes
  back with directive nodes allocated during its own parse. Hence the directive nodes of
  two children of one list are different objects, and a nested parse never writes the
  \<open>next\<close> field of a directive node that existed before it.
\<close>

lemma allocates_refl: "allocates b st st"
  by (simp add: allocates_def)

lemma allocates_heap: "heap st' = heap st \<Longrightarrow> allocates b st st'"
  by (simp add: allocates_def heap_def)

lemma allocates_trans:
  assumes "allocates b st st1" "allocates b st1 st2"
  shows "allocates b st st2"
proof -
  from assms obtain ws1 ws2 where
    1: "nexts st1 = ws1 @ nexts st" "\<forall>a\<in>fst ` set ws1. b \<le> a"
    and 2: "nexts st2 = ws2 @ nexts st1" "\<forall>a\<in>fst ` set ws2. b \<le> a"
    by (auto simp: allocates_def)
  have "nexts st2 = (ws2 @ ws1) @ nexts st" using 1 2 by simp
  moreover have "\<forall>a\<in>fst ` set (ws2 @ ws1). b \<le> a" using 1 2 by auto
  ultimately show ?thesis using assms by (auto simp: allocates_def simp del: append_assoc)
qed

lemma allocates_mono: "allocates b st st' \<Longrightarrow> b' \<le> b \<Longrightarrow> allocates b' st st'"
  by (auto simp: allocates_def intro: order_trans)

lemma allocates_heap_left: "heap st1 = heap st \<Longrightarrow> allocates b st1 st2 \<Longrightarrow> allocates b st st2"
  by (simp add: allocates_def heap_def)

lemma allocates_heap_right: "allocates b st st1 \<Longrightarrow> heap st2 = heap st1 \<Longrightarrow> allocates b st st2"
  by (simp add: allocates_def heap_def)

lemma allocates_fresh: "allocates b st st' \<Longrightarrow> fresh st \<le> fresh st'"
  by (simp add: allocates_def)

lemma heap_fresh: "heap st' = heap st \<Longrightarrow> fresh st' = fresh st"
  by (simp add: heap_def)

lemma allocates_step:
  "allocates (fresh st) st st1 \<Longrightarrow> allocates (fresh st1) st1 st2 \<Longrightarrow> allocates (fresh st) st st2"
  using allocates_mono[of "fresh st1" st1 st2 "fresh st"] allocates_trans[of "fresh st" st st1 st2]
  by (simp add: allocates_fresh)

lemma ownAddrs_nonelement: "\<not> isElementNode c \<Longrightarrow> ownAddrs c = {}"
  by (cases c) (simp_all add: ownAddrs_def dirAddrs_def)

lemma parseJSXExpression_allocates:
  assumes "parseOk pf" "parseJSXExpression p pf st = Ok (n, st')"
  shows "allocates (fresh st) st st' \<and> ownAddrs n = {}"
proof -
  from assms(2) obtain ty sp st3 v st4 where
    h: "parseJSXExpression_head p st = Ok (ty, sp, st3)"
    and b: "(if isExpect p (snd (delimiters p)) (index st3) then Ok ([], st3) else pf sp st3) = Ok (v, st4)"
    and e: "expect p (snd (delimiters p)) (Some ''Unclosed delimiter'') (Some (getLocation st)) st4 = Ok st'"
    and n: "n = ASTExpression ty v (getLocation st)"
    by (auto simp: parseJSXExpression_def Let_def split: result.splits)
  have h3: "heap st3 = heap st" using h by (rule heap_parseJSXExpression_head)
  have "allocates (fresh st3) st3 st4"
    using b assms(1) by (auto simp: parseOk_def allocates_refl split: if_splits)
  then have a4: "allocates (fresh st) st st4"
    using h3 by (simp add: allocates_def heap_def)
  from a4 heap_expect[OF e] have "allocates (fresh st) st st'" by (rule allocates_heap_right)
  with n show ?thesis by (simp add: ownAddrs_nonelement)
qed

lemma parseJSXAttribute_value_allocates:
  assumes "parseOk pf" "parseJSXAttribute_value p pf st = Ok (v, st')"
  shows "allocates (fresh st) st st'"
proof (cases "pchar p st = Some CHR ''=''")
  case False
  with assms(2) show ?thesis by (simp add: parseJSXAttribute_value_def allocates_refl)
next
  case True
  with assms(2) have a: "parseJSXAttributeValue p pf (updateIndex 1 st) = Ok (v, st')"
    by (simp add: parseJSXAttribute_value_def)
  let ?st = "updateIndex 1 st"
  have "allocates (fresh ?st) ?st st'"
  proof (cases "isExpect p (fst (delimiters p)) (index ?st)")
    case True
    with a have "parseJSXExpression p pf ?st = Ok (v, st')" by (simp add: parseJSXAttributeValue_def)
    from parseJSXExpression_allocates[OF assms(1) this] show ?thesis by simp
  next
    case False
    with a have "scanString p ?st = Ok (v, st')"
      by (auto simp: parseJSXAttributeValue_def Let_def error_def split: if_splits)
    from heap_scanString[OF this] show ?thesis by (rule allocates_heap)
  qed
  then show ?thesis by (simp add: allocates_def heap_def updateIndex_def)
qed

lemma routeAttribute_allocates:
  assumes "routeAttribute p name v loc acc st = (acc', st')"
  shows "allocates b st st' \<and>
         dirAddrs (adirectives acc') \<subseteq> dirAddrs (adirectives acc) \<union> {fresh st..<fresh st'}"
  using assms
  by (auto simp: routeAttribute_def Let_def allocates_def dirAddrs_def split: if_splits)

lemma parseJSXAttribute_named_allocates:
  assumes "parseOk pf" "parseJSXAttribute_named p pf tag ty acc st = Ok (acc', st')"
  shows "allocates (fresh st) st st' \<and>
         dirAddrs (adirectives acc') \<subseteq> dirAddrs (adirectives acc) \<union> {fresh st..<fresh st'}"
proof -
  from assms(2) obtain name st1 v st2 where
    n: "parseJSXAttributeName p st = Ok (name, st1)"
    and v: "parseJSXAttribute_value p pf st1 = Ok (v, st2)"
    and r: "(acc', st') = routeAttribute p name v (getLocation st)
                     (if \<not> keyed acc \<and> name = ''key'' then acc\<lparr>keyed := True\<rparr> else acc) st2"
    by (rule parseJSXAttribute_named_inv)
  let ?acc1 = "if \<not> keyed acc \<and> name = ''key'' then acc\<lparr>keyed := True\<rparr> else acc"
  have h1: "heap st1 = heap st" using n by (rule heap_parseJSXAttributeName)
  have a2: "allocates (fresh st1) st1 st2" using assms(1) v by (rule parseJSXAttribute_value_allocates)
  then have a2': "allocates (fresh st) st st2" using h1 by (simp add: allocates_def heap_def)
  from routeAttribute_allocates[OF r[symmetric], of "fresh st"]
  have a3: "allocates (fresh st) st2 st'"
    and d: "dirAddrs (adirectives acc') \<subseteq> dirAddrs (adirectives ?acc1) \<union> {fresh st2..<fresh st'}"
    by simp_all
  have "dirAddrs (adirectives ?acc1) = dirAddrs (adirectives acc)" by simp
  moreover have "fresh st \<le> fresh st2" using a2' by (rule allocates_fresh)
  ultimately have "dirAddrs (adirectives acc') \<subseteq> dirAddrs (adirectives acc) \<union> {fresh st..<fresh st'}"
    using d by auto
  with allocates_trans[OF a2' a3] show ?thesis by simp
qed

lemma parseJSXAttribute_loop_allocates:
  assumes "parseOk pf"
  shows "parseJSXAttribute_loop k p pf tag ty acc st = Ok (acc', st') \<Longrightarrow>
         allocates (fresh st) st st' \<and>
         dirAddrs (adirectives acc') \<subseteq> dirAddrs (adirectives acc) \<union> {fresh st..<fresh st'}"
proof (induction k arbitrary: acc st)
  case 0
  then show ?case by simp
next
  case (Suc k)
  show ?case
  proof (cases "index st < length (source p)")
    case False
    with Suc.prems show ?thesis by (simp add: allocates_refl)
  next
    case True
    let ?st1 = "skipWhitespace p st"
    have h1: "heap ?st1 = heap st" by simp
    show ?thesis
    proof (cases "pchar p ?st1 = Some CHR ''/'' \<or> pchar p ?st1 = Some CHR ''>''")
      case stop: True
      with True Suc.prems have "acc' = acc" "st' = ?st1" by (auto simp: Let_def)
      with h1 show ?thesis by (simp add: allocates_heap)
    next
      case stop: False
      show ?thesis
      proof (cases "isExpect p (fst (delimiters p)) (index ?st1)")
        case ex: True
        let ?acc1 = "\<lambda>expression. if expressionValue expression \<noteq> []
                     then acc\<lparr>attributes := attributes acc @ [expression]\<rparr> else acc"
        from True stop ex Suc.prems(1) obtain expression st2 where
          e: "parseJSXExpression p pf ?st1 = Ok (expression, st2)"
          and r: "parseJSXAttribute_loop k p pf tag ty (?acc1 expression) st2 = Ok (acc', st')"
          by (auto simp: Let_def split: result.splits)
        from parseJSXExpression_allocates[OF assms e] have a1: "allocates (fresh ?st1) ?st1 st2" by simp
        then have a1': "allocates (fresh st) st st2" using h1 by (simp add: allocates_def heap_def)
        from Suc.IH[OF r] have a2: "allocates (fresh st2) st2 st'"
          and d: "dirAddrs (adirectives acc') \<subseteq> dirAddrs (adirectives (?acc1 expression)) \<union> {fresh st2..<fresh st'}"
          by simp_all
        have "dirAddrs (adirectives (?acc1 expression)) = dirAddrs (adirectives acc)" by simp
        moreover have "fresh st \<le> fresh st2" using a1' by (rule allocates_fresh)
        ultimately have "dirAddrs (adirectives acc') \<subseteq> dirAddrs (adirectives acc) \<union> {fresh st..<fresh st'}"
          using d by auto
        with allocates_step[OF a1' a2] show ?thesis by simp
      next
        case ex: False
        from True stop ex Suc.prems(1) obtain acc1 st2 where
          nm: "parseJSXAttribute_named p pf tag ty acc ?st1 = Ok (acc1, st2)"
          and r: "parseJSXAttribute_loop k p pf tag ty acc1 st2 = Ok (acc', st')"
          by (auto simp: Let_def split: result.splits)
        from parseJSXAttribute_named_allocates[OF assms nm]
        have a1: "allocates (fresh ?st1) ?st1 st2"
          and d1: "dirAddrs (adirectives acc1) \<subseteq> dirAddrs (adirectives acc) \<union> {fresh ?st1..<fresh st2}"
          by simp_all
        have f1: "fresh ?st1 = fresh st" using h1 by (rule heap_fresh)
        from a1 have a1': "allocates (fresh st) st st2" using h1 by (simp add: allocates_def heap_def)
        from Suc.IH[OF r] have a2: "allocates (fresh st2) st2 st'"
          and d2: "dirAddrs (adirectives acc') \<subseteq> dirAddrs (adirectives acc1) \<union> {fresh st2..<fresh st'}"
          by simp_all
        have le: "fresh st \<le> fresh st2" "fresh st2 \<le> fresh st'"
          using a1' a2 by (auto dest: allocates_fresh)
        have "dirAddrs (adirectives acc') \<subseteq> dirAddrs (adirectives acc) \<union> {fresh st..<fresh st'}"
        proof
          fix x assume "x \<in> dirAddrs (adirectives acc')"
          with d2 have "x \<in> dirAddrs (adirectives acc1) \<or> x \<in> {fresh st2..<fresh st'}" by auto
          then show "x \<in> dirAddrs (adirectives acc) \<union> {fresh st..<fresh st'}"
            using d1 f1 le by auto
        qed
        with allocates_step[OF a1' a2] show ?thesis by simp
      qed
    qed
  qed
qed

lemma parseJSXAttribute_allocates:
  assumes "parseOk pf" "parseJSXAttribute fuel p pf tag ty st = Ok (a, st')"
  shows "allocates (fresh st) st st' \<and> dirAddrs (adirectives a) \<subseteq> {fresh st..<fresh st'}"
  using parseJSXAttribute_loop_allocates[OF assms(1) assms(2)[unfolded parseJSXAttribute_def]]
  by (simp add: dirAddrs_def)

lemma branch_ownAddrs: "branch c = Some d \<Longrightarrow> daddr d \<in> ownAddrs c"
  by (auto simp: branch_def ownAddrs_def dirAddrs_def split: if_splits)

lemma linkChild_effect:
  assumes "linkChild p c d nx = Ok (d1, nx1, pushed)"
  shows "(nx1 = nx \<or> (\<exists>a. d = Some a \<and> nx1 = (a, c) # nx)) \<and>
         (\<forall>x. d1 = Some x \<longrightarrow> d = Some x \<or> x \<in> ownAddrs c)"
proof -
  have "d = Some x \<or> x \<in> ownAddrs c" if "d1 = Some x" for x
  proof -
    from linkChild_directive[OF assms that] show ?thesis
    proof
      assume "d = Some x" then show ?thesis by simp
    next
      assume b: "branch c \<noteq> None \<and> addr c = x"
      then obtain dn where dn: "branch c = Some dn" by auto
      with b have "x = daddr dn" by (simp add: addr_def)
      with branch_ownAddrs[OF dn] show ?thesis by simp
    qed
  qed
  with linkChild_Ok_cases[OF assms] show ?thesis by blast
qed

lemma parseJSXChild_allocates:
  assumes "parseOk pf" "scanOk sf" "parseJSXChild p pf sf endTag isTextTag st = Ok (c, st')"
  shows "allocates (fresh st) st st' \<and> (\<forall>a\<in>ownAddrs c. fresh st \<le> a \<and> a < fresh st')"
proof (cases "isExpect p (fst (delimiters p)) (index st)")
  case True
  with assms(3) obtain st1 where
    e: "parseJSXExpression p pf st = Ok (c, st1)"
    and s: "st' = skipWhitespaceBetweenTags p endTag False st1"
    by (auto simp: parseJSXChild_def split: result.splits)
  from parseJSXExpression_allocates[OF assms(1) e]
  have a: "allocates (fresh st) st st1" and o: "ownAddrs c = {}" by simp_all
  have "heap st' = heap st1" by (simp add: s)
  with a have "allocates (fresh st) st st'" by (rule allocates_heap_right)
  with o show ?thesis by simp
next
  case False
  show ?thesis
  proof (cases "\<not> isTextTag \<and> isTagStart p (index st)")
    case True
    with False assms(3) obtain st1 where
      e: "sf st = Ok (c, st1)"
      and s: "st' = skipWhitespaceBetweenTags p endTag True st1"
      by (auto simp: parseJSXChild_def split: result.splits)
    from assms(2) e have a: "allocates (fresh st) st st1"
      and o: "\<forall>a\<in>ownAddrs c. fresh st \<le> a \<and> a < fresh st1"
      by (auto simp: scanOk_def)
    have h: "heap st' = heap st1" by (simp add: s)
    with a have "allocates (fresh st) st st'" by (rule allocates_heap_right)
    moreover have "fresh st' = fresh st1" using h by (rule heap_fresh)
    ultimately show ?thesis using o by simp
  next
    case t: False
    with False assms(3) obtain sc where e: "scanJSXText p sc st = (c, st')"
      by (auto simp: parseJSXChild_def split: if_splits)
    then have "\<not> isElementNode c" by (auto simp: scanJSXText_def Let_def)
    then have "ownAddrs c = {}" by (rule ownAddrs_nonelement)
    with heap_scanJSXText[OF e] show ?thesis by (simp add: allocates_heap)
  qed
qed

lemma parseJSXChildrenValue_loop_allocates:
  assumes "parseOk pf" "scanOk sf"
  shows "parseJSXChildrenValue_loop k p pf sf endTag isTextTag d chs st = Ok (chs', st') \<Longrightarrow>
         (\<forall>a. d = Some a \<longrightarrow> b \<le> a) \<Longrightarrow> b \<le> fresh st \<Longrightarrow> allocates b st st'"
proof (induction k arbitrary: d chs st)
  case 0
  then show ?case by simp
next
  case (Suc k)
  show ?case
  proof (cases "index st < length (source p) \<and> \<not> isExpect p endTag (index st)")
    case False
    with Suc.prems(1) have "st' = st" by (auto split: if_splits)
    then show ?thesis by (simp add: allocates_refl)
  next
    case True
    with Suc.prems(1) obtain child st1 d1 nx pushed where
      c: "parseJSXChild p pf sf endTag isTextTag st = Ok (child, st1)"
      and s: "linkChild p child d (nexts st1) = Ok (d1, nx, pushed)"
      and r: "parseJSXChildrenValue_loop k p pf sf endTag isTextTag d1
                (if pushed then chs @ [child] else chs) (st1\<lparr>nexts := nx\<rparr>) = Ok (chs', st')"
      by (auto split: result.splits)
    from parseJSXChild_allocates[OF assms c]
    have a1: "allocates (fresh st) st st1"
      and o: "\<forall>a\<in>ownAddrs child. fresh st \<le> a \<and> a < fresh st1"
      by simp_all
    from a1 Suc.prems(3) have a1': "allocates b st st1" by (rule allocates_mono)
    from linkChild_effect[OF s] have
      nx: "nx = nexts st1 \<or> (\<exists>a. d = Some a \<and> nx = (a, child) # nexts st1)"
      and d1: "\<forall>x. d1 = Some x \<longrightarrow> d = Some x \<or> x \<in> ownAddrs child"
      by simp_all
    have a2: "allocates b st1 (st1\<lparr>nexts := nx\<rparr>)"
      using nx Suc.prems(2) by (auto simp: allocates_def)
    have d1b: "\<forall>a. d1 = Some a \<longrightarrow> b \<le> a"
      using d1 Suc.prems(2,3) o by (metis order_trans)
    have fb: "b \<le> fresh (st1\<lparr>nexts := nx\<rparr>)"
      using Suc.prems(3) allocates_fresh[OF a1] by simp
    from Suc.IH[OF r d1b fb] have a3: "allocates b (st1\<lparr>nexts := nx\<rparr>) st'" .
    from allocates_trans[OF allocates_trans[OF a1' a2] a3] show ?thesis .
  qed
qed

lemma parseJSXChildrenValue_allocates:
  assumes "parseOk pf" "scanOk sf"
    and "parseJSXChildrenValue fuel p pf sf tag ty raw isTextTag loc st = Ok (chs, st')"
  shows "allocates (fresh st) st st'"
proof -
  let ?endTag = "(case ty of JSXBlock \<Rightarrow> ''</b:'' | JSXVdt \<Rightarrow> ''</t:'' | _ \<Rightarrow> ''</'') @ tag @ ''>''"
  from assms(3) obtain st1 where
    b: "(if raw then parseJSXChildrenValue_raw fuel p ?endTag [] st
         else parseJSXChildrenValue_loop fuel p pf sf ?endTag isTextTag None []
                (skipWhitespaceBetweenTags p ?endTag True st)) = Ok (chs, st1)"
    and c: "parseJSXClosingTag p ?endTag loc st1 = Ok st'"
    by (auto simp: parseJSXChildrenValue_def Let_def split: result.splits)
  have "allocates (fresh st) st st1"
  proof (cases raw)
    case True
    with b have "parseJSXChildrenValue_raw fuel p ?endTag [] st = Ok (chs, st1)" by simp
    from heap_parseJSXChildrenValue_raw[OF this] show ?thesis by (rule allocates_heap)
  next
    case False
    let ?st0 = "skipWhitespaceBetweenTags p ?endTag True st"
    from False b have l: "parseJSXChildrenValue_loop fuel p pf sf ?endTag isTextTag None [] ?st0 = Ok (chs, st1)"
      by simp
    have h: "heap ?st0 = heap st" by simp
    from parseJSXChildrenValue_loop_allocates[OF assms(1,2) l, of "fresh ?st0"]
    have "allocates (fresh ?st0) ?st0 st1" by simp
    with h show ?thesis by (simp add: allocates_def heap_def)
  qed
  from this heap_parseJSXClosingTag[OF c] show ?thesis by (rule allocates_heap_right)
qed

lemma parseJSXChildren_allocates:
  assumes "parseOk pf" "scanOk sf"
    and "parseJSXChildren fuel p pf sf tag ty attrs raw loc st = Ok (chs, attrs', st')"
  shows "allocates (fresh st) st st'"
proof (cases "(ty = JSXCommonElement \<and> selfClosingTags p tag) \<or> pchar p st = Some CHR ''/''")
  case True
  with assms(3) obtain st0 where "expect p ''>'' None None st0 = Ok st'" "heap st0 = heap st"
    by (auto simp: parseJSXChildren_def split: if_splits result.splits)
  with heap_expect[of p "''>''" None None st0 st'] show ?thesis
    by (simp add: allocates_heap)
next
  case False
  with assms(3) obtain st1 chs1 isTextTag where
    e: "expect p ''>'' None None st = Ok st1"
    and v: "parseJSXChildrenValue fuel p pf sf tag ty raw isTextTag loc st1 = Ok (chs1, st')"
    by (auto simp: parseJSXChildren_def Let_def split: if_splits result.splits)
  from parseJSXChildrenValue_allocates[OF assms(1,2) v] heap_expect[OF e]
  show ?thesis by (simp add: allocates_def heap_def)
qed

lemma parseJSXElement_allocates:
  assumes "parseOk pf" "scanOk sf" "parseJSXElement fuel p pf sf st = Ok (c, st')"
  shows "allocates (fresh st) st st' \<and> (\<forall>a\<in>ownAddrs c. fresh st \<le> a \<and> a < fresh st')"
proof -
  let ?hd = "if charCode p st \<noteq> None \<and> 65 \<le> the (charCode p st) \<and> the (charCode p st) \<le> 90
             then Ok (JSXComponent, index st, st)
             else if charCodeAt p (int (index st) + 1) = Some 58 then
               (if charCode p st = Some 116 then Ok (JSXVdt, index st + 2, updateIndex 2 st)
                else if charCode p st = Some 98 then Ok (JSXBlock, index st + 2, updateIndex 2 st)
                else error (''Unknown directive '' @
                             (case pchar p st of None \<Rightarrow> [] | Some c \<Rightarrow> [c]) @ '':'') None st)
             else Ok (JSXCommonElement, index st, st)"
  from assms(3) obtain ty start' st1 a st3 chs attrs' where
    hd: "?hd = Ok (ty, start', st1)"
    and at: "parseJSXAttribute fuel p pf (getValue p start' (scanJSXIdentifier p st1)) ty
               (scanJSXIdentifier p st1) = Ok (a, st3)"
    and ch: "parseJSXChildren fuel p pf sf (getValue p start' (scanJSXIdentifier p st1)) ty
               (attributes a) (hasVRaw a) (getLocation st) st3 = Ok (chs, attrs', st')"
    and c: "c = ASTElement ty (getValue p start' (scanJSXIdentifier p st1)) attrs' (adirectives a)
                  chs (keyed a) (getLocation st)"
    unfolding parseJSXElement_def Let_def
    by (simp split: result.splits prod.splits option.splits split del: if_split)
  have h: "heap st1 = heap st"
    using hd by (auto simp: error_def split: if_splits)
  let ?st2 = "scanJSXIdentifier p st1"
  have h2: "heap ?st2 = heap st" using h by simp
  from parseJSXAttribute_allocates[OF assms(1) at]
  have a1: "allocates (fresh ?st2) ?st2 st3" and d: "dirAddrs (adirectives a) \<subseteq> {fresh ?st2..<fresh st3}"
    by simp_all
  from a1 h2 have a1': "allocates (fresh st) st st3" by (simp add: allocates_def heap_def)
  from parseJSXChildren_allocates[OF assms(1,2) ch] have a2: "allocates (fresh st3) st3 st'" .
  have f2: "fresh ?st2 = fresh st" using h2 by (rule heap_fresh)
  have "ownAddrs c = dirAddrs (adirectives a)" by (simp add: c ownAddrs_def)
  with d f2 allocates_fresh[OF a2] have "\<forall>a\<in>ownAddrs c. fresh st \<le> a \<and> a < fresh st'" by auto
  with allocates_step[OF a1' a2] show ?thesis by simp
qed

lemma scanJSX_body_allocates:
  assumes "\<And>st c st'. pe st = Ok (c, st') \<Longrightarrow>
             allocates (fresh st) st st' \<and> (\<forall>a\<in>ownAddrs c. fresh st \<le> a \<and> a < fresh st')"
    and "scanJSX_body p pe st = Ok (c, st')"
  shows "allocates (fresh st) st st' \<and> (\<forall>a\<in>ownAddrs c. fresh st \<le> a \<and> a < fresh st')"
proof -
  from assms(2) obtain st1 where e: "expect p ''<'' None None st = Ok st1"
    and b: "(if isExpect p ''!--'' (index st1) then parseJSXComment p st1 else pe st1) = Ok (c, st')"
    by (auto simp: scanJSX_body_def split: result.splits)
  have h: "heap st1 = heap st" using e by (rule heap_expect)
  show ?thesis
  proof (cases "isExpect p ''!--'' (index st1)")
    case True
    with b have pc: "parseJSXComment p st1 = Ok (c, st')" by simp
    then have "\<not> isElementNode c" by (auto simp: parseJSXComment_def Let_def split: result.splits)
    then have "ownAddrs c = {}" by (rule ownAddrs_nonelement)
    with heap_parseJSXComment[OF pc] h show ?thesis by (simp add: allocates_heap)
  next
    case False
    with b have "pe st1 = Ok (c, st')" by simp
    from assms(1)[OF this] h show ?thesis by (simp add: allocates_def heap_def)
  qed
qed

lemma advance_allocates:
  assumes "scanOk sf" "advance p sf braces isRoot spaces st = Ok (n, b', st')"
  shows "allocates (fresh st) st st'"
proof (cases "isRoot \<and> isJSImport p st")
  case True
  with assms(2) obtain m where "scanJSImport p st = Ok (m, st')"
    by (auto simp: advance_def Let_def split: result.splits)
  from heap_scanJSImport[OF this] show ?thesis by (rule allocates_heap)
next
  case False
  show ?thesis
  proof (cases "pchar p st \<noteq> Some CHR ''<''")
    case True
    with False assms(2) have "scanJS p braces isRoot spaces st = Ok (n, b', st')"
      by (auto simp: advance_def Let_def)
    from heap_scanJS[OF this] show ?thesis by (rule allocates_heap)
  next
    case lt: False
    with False assms(2) have "sf st = Ok (n, st')"
      by (auto simp: advance_def Let_def split: result.splits)
    with assms(1) show ?thesis by (simp add: scanOk_def)
  qed
qed

lemma parse_loop_allocates:
  assumes "scanOk sf"
  shows "parse_loop k p sf isRoot spaces nodes braces st = Ok (r, st') \<Longrightarrow>
         allocates (fresh st) st st'"
proof (induction k arbitrary: nodes braces st)
  case 0
  then show ?case by simp
next
  case (Suc k)
  show ?case
  proof (cases "index st < length (source p) \<and> 0 \<le> braces")
    case False
    with Suc.prems have "st' = st" by (auto split: if_splits)
    then show ?thesis by (simp add: allocates_refl)
  next
    case True
    with Suc.prems obtain n b' st1 where
      a: "advance p sf braces isRoot spaces st = Ok (n, b', st1)"
      and r: "parse_loop k p sf isRoot spaces (nodes @ [n]) b' st1 = Ok (r, st')"
      by (auto split: result.splits)
    from allocates_step[OF advance_allocates[OF assms a] Suc.IH[OF r]] show ?thesis .
  qed
qed

lemma parse_scanJSX_allocates:
  "parseOk (parse n p isRoot) \<and> scanOk (scanJSX n p)"
proof (induction n arbitrary: isRoot)
  case 0
  show ?case by (simp add: parseOk_def scanOk_def)
next
  case (Suc n)
  have pf: "parseOk (parse n p False)" and sf: "scanOk (scanJSX n p)"
    using Suc.IH by simp_all
  have 1: "parseOk (parse (Suc n) p isRoot)"
    unfolding parseOk_def using parse_loop_allocates[OF sf] by simp
  have 2: "scanOk (scanJSX (Suc n) p)"
    unfolding scanOk_def
  proof (intro allI impI)
    fix st c st'
    assume "scanJSX (Suc n) p st = Ok (c, st')"
    then have b: "scanJSX_body p (parseJSXElement n p (parse n p False) (scanJSX n p)) st = Ok (c, st')"
      by simp
    show "allocates (fresh st) st st' \<and> (\<forall>a\<in>ownAddrs c. fresh st \<le> a \<and> a < fresh st')"
      by (rule scanJSX_body_allocates[OF _ b]) (rule parseJSXElement_allocates[OF pf sf])
  qed
  from 1 2 show ?case by blast
qed

subsection \<open>The loop of parseJSXChildrenValue\<close>

lemma parsed_step:
  assumes "parseJSXChildrenValue_parsed k p pf sf endTag isTextTag d st = c # rest"
  obtains k' st1 where
    "k = Suc k'" "index st < length (source p)" "\<not> isExpect p endTag (index st)"
    "parseJSXChild p pf sf endTag isTextTag st = Ok (c, st1)"
    "rest = (case linkChild p c d (nexts st1) of
               Ok (d1, nx, pushed) \<Rightarrow>
                 parseJSXChildrenValue_parsed k' p pf sf endTag isTextTag d1 (st1\<lparr>nexts := nx\<rparr>)
             | _ \<Rightarrow> [])"
proof (cases k)
  case 0
  with assms show ?thesis by simp
next
  case (Suc k')
  with assms have c: "index st < length (source p)" "\<not> isExpect p endTag (index st)"
    by (auto split: if_splits)
  with assms Suc obtain st1 where
    "parseJSXChild p pf sf endTag isTextTag st = Ok (c, st1)"
    "rest = (case linkChild p c d (nexts st1) of
               Ok (d1, nx, pushed) \<Rightarrow>
                 parseJSXChildrenValue_parsed k' p pf sf endTag isTextTag d1 (st1\<lparr>nexts := nx\<rparr>)
             | _ \<Rightarrow> [])"
    by (auto split: result.splits)
  with Suc c that show ?thesis by blast
qed

lemma loop_step:
  assumes "parseJSXChildrenValue_loop k p pf sf endTag isTextTag d chs st = Ok (chs', st')"
    and "parseJSXChildrenValue_parsed k p pf sf endTag isTextTag d st = c # rest"
  obtains k' st1 d1 nx pushed where
    "k = Suc k'"
    "parseJSXChild p pf sf endTag isTextTag st = Ok (c, st1)"
    "linkChild p c d (nexts st1) = Ok (d1, nx, pushed)"
    "parseJSXChildrenValue_loop k' p pf sf endTag isTextTag d1
       (if pushed then chs @ [c] else chs) (st1\<lparr>nexts := nx\<rparr>) = Ok (chs', st')"
    "parseJSXChildrenValue_parsed k' p pf sf endTag isTextTag d1 (st1\<lparr>nexts := nx\<rparr>) = rest"
proof -
  from assms(2) obtain k' st1 where
    k: "k = Suc k'" and c: "index st < length (source p)" "\<not> isExpect p endTag (index st)"
    and pc: "parseJSXChild p pf sf endTag isTextTag st = Ok (c, st1)"
    and rest: "rest = (case linkChild p c d (nexts st1) of
               Ok (d1, nx, pushed) \<Rightarrow>
                 parseJSXChildrenValue_parsed k' p pf sf endTag isTextTag d1 (st1\<lparr>nexts := nx\<rparr>)
             | _ \<Rightarrow> [])"
    by (rule parsed_step)
  from assms(1) k c pc obtain d1 nx pushed where
    l: "linkChild p c d (nexts st1) = Ok (d1, nx, pushed)"
    and r: "parseJSXChildrenValue_loop k' p pf sf endTag isTextTag d1
       (if pushed then chs @ [c] else chs) (st1\<lparr>nexts := nx\<rparr>) = Ok (chs', st')"
    by (auto split: result.splits)
  from rest l have "parseJSXChildrenValue_parsed k' p pf sf endTag isTextTag d1 (st1\<lparr>nexts := nx\<rparr>) = rest"
    by simp
  with k pc l r that show ?thesis by blast
qed

lemma loop_children:
  "parseJSXChildrenValue_loop k p pf sf endTag isTextTag d chs st = Ok (chs', st') \<Longrightarrow>
   chs' = chs @ filter (\<lambda>c. \<not> chained c) (parseJSXChildrenValue_parsed k p pf sf endTag isTextTag d st)"
proof (induction k arbitrary: d chs st)
  case 0
  then show ?case by simp
next
  case (Suc k)
  show ?case
  proof (cases "index st < length (source p) \<and> \<not> isExpect p endTag (index st)")
    case False
    then have pe: "parseJSXChildrenValue_parsed (Suc k) p pf sf endTag isTextTag d st = []"
      by auto
    from False Suc.prems have "chs' = chs" by (auto split: if_splits)
    with pe show ?thesis by simp
  next
    case True
    with Suc.prems obtain child st1 d1 nx pushed where
      c: "parseJSXChild p pf sf endTag isTextTag st = Ok (child, st1)"
      and s: "linkChild p child d (nexts st1) = Ok (d1, nx, pushed)"
      and r: "parseJSXChildrenValue_loop k p pf sf endTag isTextTag d1
                (if pushed then chs @ [child] else chs) (st1\<lparr>nexts := nx\<rparr>) = Ok (chs', st')"
      by (auto split: result.splits)
    from linkChild_Ok_cases[OF s] have pu: "pushed = (\<not> chained child)" by simp
    have ps: "parseJSXChildrenValue_parsed (Suc k) p pf sf endTag isTextTag d st =
             child # parseJSXChildrenValue_parsed k p pf sf endTag isTextTag d1 (st1\<lparr>nexts := nx\<rparr>)"
      using True c s by simp
    from Suc.IH[OF r] pu show ?thesis unfolding ps by simp
  qed
qed

lemma loop_orphan:
  assumes dev: "NODE_ENV p \<noteq> ''production''" and e: "chained e"
  shows "parseJSXChildrenValue_parsed k p pf sf endTag isTextTag d st = pre @ e # post \<Longrightarrow>
         \<not> fold chainOpen_step pre (d \<noteq> None) \<Longrightarrow>
         parseJSXChildrenValue_loop k p pf sf endTag isTextTag d chs st =
           Err (ParseError (mustBeLead (dname (the (branch e)))) (node_loc e))"
proof (induction pre arbitrary: k d chs st)
  case Nil
  from Nil.prems(1) obtain k' st1 where
    k: "k = Suc k'" and c: "index st < length (source p)" "\<not> isExpect p endTag (index st)"
    and pc: "parseJSXChild p pf sf endTag isTextTag st = Ok (e, st1)"
    by (auto elim: parsed_step)
  from Nil.prems(2) have "d = None" by simp
  with k c pc dev e show ?case by (simp add: linkChild_orphan)
next
  case (Cons c pre)
  from Cons.prems(1) obtain k' st1 where
    k: "k = Suc k'" and cnd: "index st < length (source p)" "\<not> isExpect p endTag (index st)"
    and pc: "parseJSXChild p pf sf endTag isTextTag st = Ok (c, st1)"
    and rest: "pre @ e # post = (case linkChild p c d (nexts st1) of
               Ok (d1, nx, pushed) \<Rightarrow>
                 parseJSXChildrenValue_parsed k' p pf sf endTag isTextTag d1 (st1\<lparr>nexts := nx\<rparr>)
             | _ \<Rightarrow> [])"
    by (auto elim: parsed_step)
  from rest obtain d1 nx pushed where
    l: "linkChild p c d (nexts st1) = Ok (d1, nx, pushed)"
    and r: "parseJSXChildrenValue_parsed k' p pf sf endTag isTextTag d1 (st1\<lparr>nexts := nx\<rparr>) = pre @ e # post"
    by (cases "linkChild p c d (nexts st1)") auto
  from linkChild_Ok_cases[OF l] have "(d1 \<noteq> None) = chainOpen_step c (d \<noteq> None)" by simp
  with Cons.prems(2) have o: "\<not> fold chainOpen_step pre (d1 \<noteq> None)" by simp
  from Cons.IH[OF r o, of "if pushed then chs @ [c] else chs"] k cnd pc l
  show ?case by simp
qed

lemma allocates_map_of:
  "allocates b st st' \<Longrightarrow> a < b \<Longrightarrow> map_of (nexts st') a = map_of (nexts st) a"
proof -
  assume al: "allocates b st st'" and a: "a < b"
  then obtain ws where ws: "nexts st' = ws @ nexts st" "\<forall>x\<in>fst ` set ws. b \<le> x"
    by (auto simp: allocates_def)
  with a have "a \<notin> fst ` set ws" by auto
  then have "map_of ws a = None" by (simp add: map_of_eq_None_iff)
  then show ?thesis by (simp add: ws(1) map_add_def)
qed

lemma loop_keeps:
  assumes "parseOk pf" "scanOk sf"
  shows "parseJSXChildrenValue_loop k p pf sf endTag isTextTag d chs st = Ok (chs', st') \<Longrightarrow>
         a < fresh st \<Longrightarrow> d \<noteq> Some a \<Longrightarrow> map_of (nexts st') a = map_of (nexts st) a"
proof (induction k arbitrary: d chs st)
  case 0
  then show ?case by simp
next
  case (Suc k)
  show ?case
  proof (cases "index st < length (source p) \<and> \<not> isExpect p endTag (index st)")
    case False
    with Suc.prems(1) have "st' = st" by (auto split: if_splits)
    then show ?thesis by simp
  next
    case True
    with Suc.prems(1) obtain child st1 d1 nx pushed where
      c: "parseJSXChild p pf sf endTag isTextTag st = Ok (child, st1)"
      and s: "linkChild p child d (nexts st1) = Ok (d1, nx, pushed)"
      and r: "parseJSXChildrenValue_loop k p pf sf endTag isTextTag d1
                (if pushed then chs @ [child] else chs) (st1\<lparr>nexts := nx\<rparr>) = Ok (chs', st')"
      by (auto split: result.splits)
    from parseJSXChild_allocates[OF assms c]
    have a1: "allocates (fresh st) st st1"
      and o: "\<forall>x\<in>ownAddrs child. fresh st \<le> x \<and> x < fresh st1"
      by simp_all
    from allocates_map_of[OF a1 Suc.prems(2)]
    have m1: "map_of (nexts st1) a = map_of (nexts st) a" .
    from linkChild_effect[OF s] have
      nx: "nx = nexts st1 \<or> (\<exists>a'. d = Some a' \<and> nx = (a', child) # nexts st1)"
      and d1: "\<forall>x. d1 = Some x \<longrightarrow> d = Some x \<or> x \<in> ownAddrs child"
      by simp_all
    from nx Suc.prems(3) have m2: "map_of nx a = map_of (nexts st1) a" by (auto split: if_splits)
    have d1a: "d1 \<noteq> Some a"
    proof
      assume "d1 = Some a"
      with d1 Suc.prems(3) have "a \<in> ownAddrs child" by auto
      with o Suc.prems(2) show False by auto
    qed
    have fa: "a < fresh (st1\<lparr>nexts := nx\<rparr>)"
      using Suc.prems(2) allocates_fresh[OF a1] by simp
    from Suc.IH[OF r fa d1a] m1 m2 show ?thesis by simp
  qed
qed

lemma chained_addr: "chained c \<Longrightarrow> addr c \<in> ownAddrs c"
  by (auto simp: chained_def carriesElseIf_def carriesElse_def addr_def branch_def ownAddrs_def
                 dirAddrs_def)

lemma carriesIf_addr: "carriesIf c \<Longrightarrow> addr c \<in> ownAddrs c"
  by (auto simp: carriesIf_def addr_def branch_def ownAddrs_def dirAddrs_def)

lemma loop_chain:
  assumes "parseOk pf" "scanOk sf"
  shows "parseJSXChildrenValue_loop k p pf sf endTag isTextTag (Some a) chs st = Ok (chs', st') \<Longrightarrow>
         parseJSXChildrenValue_parsed k p pf sf endTag isTextTag (Some a) st = mid @ post \<Longrightarrow>
         \<forall>c\<in>set mid. \<not> carriesIf c \<Longrightarrow>
         \<forall>e\<in>set (butlast (filter chained mid)). carriesElseIf e \<Longrightarrow>
         a < fresh st \<Longrightarrow>
         \<forall>i<length (filter chained mid).
            map_of (nexts st') ((a # map addr (filter chained mid)) ! i) = Some (filter chained mid ! i)"
proof (induction mid arbitrary: k a chs st)
  case Nil
  then show ?case by simp
next
  case (Cons c mid)
  from Cons.prems(1,2) obtain k' st1 d1 nx pushed where
    k: "k = Suc k'"
    and pc: "parseJSXChild p pf sf endTag isTextTag st = Ok (c, st1)"
    and l: "linkChild p c (Some a) (nexts st1) = Ok (d1, nx, pushed)"
    and r: "parseJSXChildrenValue_loop k' p pf sf endTag isTextTag d1
       (if pushed then chs @ [c] else chs) (st1\<lparr>nexts := nx\<rparr>) = Ok (chs', st')"
    and pr: "parseJSXChildrenValue_parsed k' p pf sf endTag isTextTag d1 (st1\<lparr>nexts := nx\<rparr>) = mid @ post"
    by (auto elim: loop_step)
  from parseJSXChild_allocates[OF assms pc]
  have a1: "allocates (fresh st) st st1"
    and o: "\<forall>x\<in>ownAddrs c. fresh st \<le> x \<and> x < fresh st1"
    by simp_all
  have f1: "fresh st \<le> fresh st1" using a1 by (rule allocates_fresh)
  from Cons.prems(3) have nif: "\<not> carriesIf c" and rest: "\<forall>c\<in>set mid. \<not> carriesIf c" by simp_all
  let ?st2 = "st1\<lparr>nexts := nx\<rparr>"
  show ?case
  proof (cases "chained c")
    case False
    from l nif False have d1: "d1 = Some a" and nx: "nx = nexts st1"
      by (simp_all add: linkChild_plain)
    from Cons.prems(4) False have b: "\<forall>e\<in>set (butlast (filter chained mid)). carriesElseIf e"
      by simp
    have fa: "a < fresh ?st2" using Cons.prems(5) f1 by simp
    from Cons.IH[OF r[unfolded d1] pr[unfolded d1] rest b fa] False show ?thesis by simp
  next
    case True
    from l True have d1: "d1 = (if carriesElseIf c then Some (addr c) else None)"
      and nx: "nx = (a, c) # nexts st1"
      by (simp_all add: linkChild_chained)
    from chained_addr[OF True] o have ac: "fresh st \<le> addr c" "addr c < fresh st1" by auto
    have fa: "a < fresh ?st2" using Cons.prems(5) f1 by simp
    have d1a: "d1 \<noteq> Some a" using d1 ac Cons.prems(5) by auto
    from loop_keeps[OF assms r fa d1a] nx
    have zero: "map_of (nexts st') a = Some c" by simp
    let ?es = "filter chained mid"
    have more: "map_of (nexts st') ((addr c # map addr ?es) ! i) = Some (?es ! i)" if "i < length ?es" for i
    proof -
      from that have ne: "?es \<noteq> []" by auto
      with Cons.prems(4) True have ei: "carriesElseIf c" by simp
      with d1 have d1': "d1 = Some (addr c)" by simp
      from Cons.prems(4) True ne have b: "\<forall>e\<in>set (butlast ?es). carriesElseIf e" by auto
      have fc: "addr c < fresh ?st2" using ac by simp
      from Cons.IH[OF r[unfolded d1'] pr[unfolded d1'] rest b fc] that show ?thesis by simp
    qed
    show ?thesis
    proof (intro allI impI)
      fix i assume i: "i < length (filter chained (c # mid))"
      show "map_of (nexts st') ((a # map addr (filter chained (c # mid))) ! i) =
            Some (filter chained (c # mid) ! i)"
      proof (cases i)
        case 0
        with True zero show ?thesis by simp
      next
        case (Suc j)
        with i True have "j < length ?es" by simp
        from more[OF this] Suc True show ?thesis by simp
      qed
    qed
  qed
qed

lemma loop_reaches_head:
  assumes "parseOk pf" "scanOk sf" "carriesIf head"
  shows "parseJSXChildrenValue_loop k p pf sf endTag isTextTag d chs st = Ok (chs', st') \<Longrightarrow>
         parseJSXChildrenValue_parsed k p pf sf endTag isTextTag d st = pre @ head # rest \<Longrightarrow>
         \<exists>k' chs1 st1.
            parseJSXChildrenValue_loop k' p pf sf endTag isTextTag (Some (addr head)) chs1 st1 = Ok (chs', st') \<and>
            parseJSXChildrenValue_parsed k' p pf sf endTag isTextTag (Some (addr head)) st1 = rest \<and>
            addr head < fresh st1"
proof (induction pre arbitrary: k d chs st)
  case Nil
  from Nil.prems obtain k' st1 d1 nx pushed where
    pc: "parseJSXChild p pf sf endTag isTextTag st = Ok (head, st1)"
    and l: "linkChild p head d (nexts st1) = Ok (d1, nx, pushed)"
    and r: "parseJSXChildrenValue_loop k' p pf sf endTag isTextTag d1
       (if pushed then chs @ [head] else chs) (st1\<lparr>nexts := nx\<rparr>) = Ok (chs', st')"
    and pr: "parseJSXChildrenValue_parsed k' p pf sf endTag isTextTag d1 (st1\<lparr>nexts := nx\<rparr>) = rest"
    by (auto elim: loop_step)
  from l assms(3) have d1: "d1 = Some (addr head)" by (simp add: linkChild_if)
  from parseJSXChild_allocates[OF assms(1,2) pc] carriesIf_addr[OF assms(3)]
  have "addr head < fresh (st1\<lparr>nexts := nx\<rparr>)" by auto
  with r pr d1 show ?case by blast
next
  case (Cons c pre)
  from Cons.prems obtain k' st1 d1 nx pushed where
    r: "parseJSXChildrenValue_loop k' p pf sf endTag isTextTag d1
       (if pushed then chs @ [c] else chs) (st1\<lparr>nexts := nx\<rparr>) = Ok (chs', st')"
    and pr: "parseJSXChildrenValue_parsed k' p pf sf endTag isTextTag d1 (st1\<lparr>nexts := nx\<rparr>) = pre @ head # rest"
    by (auto elim: loop_step)
  from Cons.IH[OF r pr] show ?case .
qed

lemma ex_parse_if_else:
  "Parser 10 ex_parser ex_src_if_else =
     Ok ([ASTElement JSXCommonElement ''div'' [] (Directives None None None []) [ex_p_if] False
            \<lparr>loc_line = 1, loc_column = 2\<rparr>],
         \<lparr>index = 43, line = 1, column = 44, fresh = 2, nexts = [(0, ex_p_else)]\<rparr>)"
  by code_simp

text \<open>
  Claim C1, amended. Take a run of the loop of \<open>parseJSXChildrenValue\<close>, with \<open>parse\<close> and
  \<open>scanJSX\<close> as callees, in which \<open>parseJSXChild\<close> returns an element carrying \<open>if\<close>,
  followed by siblings none of which carries \<open>if\<close>; among them, let \<open>es\<close> be the
  elements that carry \<open>else-if\<close> or \<open>else\<close>, of which only the last may be a plain
  \<open>else\<close>. When the loop returns, the \<open>next\<close> field of the \<open>if\<close> node holds the first
  element of \<open>es\<close>, the \<open>next\<close> field of the \<open>else-if\<close> node of each element of \<open>es\<close>
  holds the element of \<open>es\<close> that follows in document order, and the returned child list
  is the parsed one without the chained elements: the head stays, every chained
  \<open>else-if\<close>/\<open>else\<close> element is gone.
\<close>

theorem directive_chain_linked:
  assumes parsed: "parseJSXChildrenValue_parsed k p (parse n p False) (scanJSX n p) endTag isTextTag
                     None st = pre @ head # mid @ post"
    and head: "carriesIf head"
    and mid: "\<forall>c\<in>set mid. \<not> carriesIf c"
    and es: "es = filter chained mid"
    and elif: "\<forall>e\<in>set (butlast es). carriesElseIf e"
    and run: "parseJSXChildrenValue_loop k p (parse n p False) (scanJSX n p) endTag isTextTag
                None [] st = Ok (chs', st')"
  shows "chs' = filter (\<lambda>c. \<not> chained c) pre @ head # filter (\<lambda>c. \<not> chained c) mid @
                  filter (\<lambda>c. \<not> chained c) post \<and>
         (\<forall>i<length es. nextOf (nexts st') ((head # es) ! i) = Some (es ! i))"
proof
  have nh: "\<not> chained head" using head by (rule kinds_exclusive(1))
  from loop_children[OF run] nh
  show "chs' = filter (\<lambda>c. \<not> chained c) pre @ head # filter (\<lambda>c. \<not> chained c) mid @
                 filter (\<lambda>c. \<not> chained c) post"
    by (simp add: parsed)
next
  have pf: "parseOk (parse n p False)" and sf: "scanOk (scanJSX n p)"
    using parse_scanJSX_allocates[of n p False] by simp_all
  from loop_reaches_head[OF pf sf head run parsed] obtain k' chs1 st1 where
    r: "parseJSXChildrenValue_loop k' p (parse n p False) (scanJSX n p) endTag isTextTag
          (Some (addr head)) chs1 st1 = Ok (chs', st')"
    and ps: "parseJSXChildrenValue_parsed k' p (parse n p False) (scanJSX n p) endTag isTextTag
          (Some (addr head)) st1 = mid @ post"
    and fr: "addr head < fresh st1"
    by blast
  from elif es have elif': "\<forall>e\<in>set (butlast (filter chained mid)). carriesElseIf e" by simp
  from loop_chain[OF pf sf r ps mid elif' fr]
  have "\<forall>i<length es. map_of (nexts st') ((addr head # map addr es) ! i) = Some (es ! i)"
    by (simp add: es)
  moreover have "addr ((head # es) ! i) = (addr head # map addr es) ! i" if "i < length es" for i
    using that by (cases i) auto
  ultimately show "\<forall>i<length es. nextOf (nexts st') ((head # es) ! i) = Some (es ! i)"
    by (simp add: nextOf_def)
qed

lemma ex_chain_parsed:
  "parseJSXChildrenValue_parsed 10 ex_chain (parse 10 ex_chain False) (scanJSX 10 ex_chain)
     ''</div>'' False None ex_st_children = [ex_p_if, ex_span, ex_p_else_far]"
  by code_simp

lemma ex_chain_run:
  "parseJSXChildrenValue_loop 10 ex_chain (parse 10 ex_chain False) (scanJSX 10 ex_chain)
     ''</div>'' False None [] ex_st_children =
     Ok ([ex_p_if, ex_span],
         \<lparr>index = 50, line = 1, column = 51, fresh = 2, nexts = [(0, ex_p_else_far)]\<rparr>)"
  by code_simp

lemma ex_chain_kinds:
  "carriesIf ex_p_if" "\<not> carriesIf ex_span" "\<not> chained ex_span"
  "\<not> carriesIf ex_p_else_far" "chained ex_p_else_far"
  by (simp_all add: ex_p_if_def ex_span_def ex_p_else_far_def carriesIf_def chained_def
        carriesElse_def carriesElseIf_def)

theorem directive_chain_linked_witness:
  "parseJSXChildrenValue_parsed 10 ex_chain (parse 10 ex_chain False) (scanJSX 10 ex_chain)
     ''</div>'' False None ex_st_children = [ex_p_if, ex_span, ex_p_else_far] \<and>
   carriesIf ex_p_if \<and> \<not> carriesIf ex_span \<and> \<not> carriesIf ex_p_else_far \<and>
   filter chained [ex_span, ex_p_else_far] = [ex_p_else_far] \<and>
   parseJSXChildrenValue_loop 10 ex_chain (parse 10 ex_chain False) (scanJSX 10 ex_chain)
     ''</div>'' False None [] ex_st_children =
     Ok ([ex_p_if, ex_span],
         \<lparr>index = 50, line = 1, column = 51, fresh = 2, nexts = [(0, ex_p_else_far)]\<rparr>) \<and>
   nextOf [(0, ex_p_else_far)] ex_p_if = Some ex_p_else_far"
proof -
  have ps: "parseJSXChildrenValue_parsed 10 ex_chain (parse 10 ex_chain False) (scanJSX 10 ex_chain)
              ''</div>'' False None ex_st_children = [] @ ex_p_if # [ex_span, ex_p_else_far] @ []"
    by (simp add: ex_chain_parsed)
  have m: "\<forall>c\<in>set [ex_span, ex_p_else_far]. \<not> carriesIf c" using ex_chain_kinds by simp
  have f: "[ex_p_else_far] = filter chained [ex_span, ex_p_else_far]" using ex_chain_kinds by simp
  have b: "\<forall>e\<in>set (butlast [ex_p_else_far]). carriesElseIf e" by simp
  from directive_chain_linked[OF ps ex_chain_kinds(1) m f b ex_chain_run]
  have "nextOf [(0, ex_p_else_far)] ex_p_if = Some ex_p_else_far" by simp
  with ex_chain_parsed ex_chain_run ex_chain_kinds f show ?thesis by simp
qed


text \<open>
  Claim C1 as stated fails for an element that carries \<open>else-if\<close> and also \<open>if\<close>: the
  loop looks at \<open>if\<close> first, so the element opens a chain of its own, stays in the child
  list, and nothing is linked.
\<close>

theorem else_if_with_own_if_is_not_chained:
  "Parser 10 ex_parser ex_src_if_both =
     Ok ([ASTElement JSXCommonElement ''div'' [] (Directives None None None [])
            [ex_p_if, ex_p_both] False \<lparr>loc_line = 1, loc_column = 2\<rparr>],
         \<lparr>index = 59, line = 1, column = 60, fresh = 3, nexts = []\<rparr>) \<and>
   dIf (directives ex_p_if) \<noteq> None \<and>
   dElseIf (directives ex_p_both) \<noteq> None"
proof -
  have "Parser 10 ex_parser ex_src_if_both =
     Ok ([ASTElement JSXCommonElement ''div'' [] (Directives None None None [])
            [ex_p_if, ex_p_both] False \<lparr>loc_line = 1, loc_column = 2\<rparr>],
         \<lparr>index = 59, line = 1, column = 60, fresh = 3, nexts = []\<rparr>)"
    by code_simp
  then show ?thesis by (simp add: ex_p_if_def ex_p_both_def)
qed

subsection \<open>An else without a chain\<close>

text \<open>
  Claim C2, amended. In a build that is not \<open>production\<close>, take a run of the loop of
  \<open>parseJSXChildrenValue\<close> in which \<open>parseJSXChild\<close> returns an element that carries
  \<open>else-if\<close> or \<open>else\<close> and no \<open>if\<close> while no chain is open (no earlier sibling carries
  a conditional directive, or the most recent one that does carries a plain \<open>else\<close>).
  Then the loop, whatever its callees, fails with the parse error
  \<open>'name' must be lead with 'v-if' or 'v-else-if'\<close> at the location of that element.
\<close>

theorem orphan_else_is_parse_error:
  assumes dev: "NODE_ENV p \<noteq> ''production''"
    and parsed: "parseJSXChildrenValue_parsed k p pf sf endTag isTextTag None st = pre @ e # post"
    and closed: "\<not> chainOpen pre"
    and e: "chained e"
  shows "parseJSXChildrenValue_loop k p pf sf endTag isTextTag None chs st =
           Err (ParseError (mustBeLead (dname (the (branch e)))) (node_loc e))"
  using loop_orphan[OF dev e parsed] closed by (simp add: chainOpen_def)

lemma ex_orphan_parsed:
  "parseJSXChildrenValue_parsed 10 ex_orphan (parse 10 ex_orphan False) (scanJSX 10 ex_orphan)
     ''</div>'' False None ex_st_children = [ex_p_if, ex_p_else, ex_p_elif]"
  by code_simp

theorem orphan_else_is_parse_error_witness:
  "NODE_ENV ex_orphan \<noteq> ''production'' \<and>
   parseJSXChildrenValue_parsed 10 ex_orphan (parse 10 ex_orphan False) (scanJSX 10 ex_orphan)
     ''</div>'' False None ex_st_children = [ex_p_if, ex_p_else, ex_p_elif] \<and>
   \<not> chainOpen [ex_p_if, ex_p_else] \<and> chained ex_p_elif \<and>
   parseJSXChildrenValue_loop 10 ex_orphan (parse 10 ex_orphan False) (scanJSX 10 ex_orphan)
     ''</div>'' False None [] ex_st_children =
     Err (ParseError (mustBeLead ''v-else-if'') \<lparr>loc_line = 1, loc_column = 39\<rparr>)"
proof -
  have dev: "NODE_ENV ex_orphan \<noteq> ''production''" by (simp add: ex_orphan_def ex_parser_def)
  have ps: "parseJSXChildrenValue_parsed 10 ex_orphan (parse 10 ex_orphan False) (scanJSX 10 ex_orphan)
              ''</div>'' False None ex_st_children = [ex_p_if, ex_p_else] @ ex_p_elif # []"
    by (simp add: ex_orphan_parsed)
  have closed: "\<not> chainOpen [ex_p_if, ex_p_else]"
    by (simp add: chainOpen_def chainOpen_step_def carriesIf_def carriesElseIf_def carriesElse_def
          ex_p_if_def ex_p_else_def)
  have e: "chained ex_p_elif"
    by (simp add: ex_p_elif_def chained_def carriesElseIf_def)
  have b: "dname (the (branch ex_p_elif)) = ''v-else-if''"
    "node_loc ex_p_elif = \<lparr>loc_line = 1, loc_column = 39\<rparr>"
    by (simp_all add: ex_p_elif_def branch_def)
  from orphan_else_is_parse_error[OF dev ps closed e, of "[]"] dev ex_orphan_parsed closed e b
  show ?thesis by simp
qed

text \<open>
  Claim C2 as stated fails twice. An \<open>else\<close> element that follows another element, not the
  \<open>if\<close> element, is accepted and linked to the \<open>if\<close>, because only an \<open>else\<close> closes a
  chain. And in a \<open>production\<close> build the check is skipped, so that an \<open>else\<close> without a
  chain ends in the TypeError of writing \<open>next\<close> of \<open>null\<close>, which carries no location.
\<close>

theorem else_after_other_element_is_accepted:
  "is_Ok (Parser 10 ex_parser ex_src_if_span_else) \<and>
   nexts (snd (the_Ok (Parser 10 ex_parser ex_src_if_span_else))) =
     [(0, ASTElement JSXCommonElement ''p'' []
            (Directives None None
               (Some (ASTDirectiveIf ''v-else'' (ASTNone \<lparr>loc_line = 1, loc_column = 45\<rparr>) 1
                        \<lparr>loc_line = 1, loc_column = 39\<rparr>))
               [])
            [ASTText ''B'' \<lparr>loc_line = 1, loc_column = 46\<rparr>] False
            \<lparr>loc_line = 1, loc_column = 37\<rparr>)] \<and>
   Parser 10 (ex_parser\<lparr>NODE_ENV := ''production''\<rparr>) ex_src_else = Err NullDereference"
  by code_simp

subsection \<open>Where the scan of an expression body stops\<close>











subsection \<open>The guard of the structural validation\<close>

lemma validateAttribute_production:
  "NODE_ENV p = ''production'' \<Longrightarrow>
   validateAttribute p tag ty name v =
     (case (if directivesMap p name
            then validateDirectiveValue p name (node_type v) tag ty (source p) (node_loc v)
            else None) of
        Some e \<Rightarrow> Some e
      | None \<Rightarrow>
          if ty = JSXBlock then validateAttributeForBlock p tag name v (node_loc v) (source p)
          else None)"
  by (simp add: validateAttribute_def)

text \<open>
  Claim C3 does not hold of the code. The guard in \<open>parseJSXAttribute\<close> compares
  \<open>NODE_ENV\<close> with the misspelt \<open>produdction\<close>, so that with \<open>NODE_ENV = production\<close>
  the checks \<open>validateDirectiveValue\<close> and \<open>validateAttributeForBlock\<close> still
  run and their errors are raised. With a check that rejects a string value of \<open>v-if\<close>,
  the source \<open><div v-if='x'></div>\<close> fails in production; it parses only under the
  misspelt name.
\<close>

theorem validation_runs_in_production:
  "NODE_ENV ex_strict = ''production'' \<and>
   Parser 10 ex_strict ex_src_if_string =
     Err (ParseError ''v-if takes an expression'' \<lparr>loc_line = 1, loc_column = 11\<rparr>) \<and>
   is_Ok (Parser 10 (ex_strict\<lparr>NODE_ENV := ''produdction''\<rparr>) ex_src_if_string)"
  by code_simp

end
